theory Spec2Isabelle
  imports Main "HOL-Library.AList"
begin

section \<open>Plain JavaScript objects\<close>

text \<open>
  The tables of \<^verbatim>\<open>index.js\<close> (\<^verbatim>\<open>tagTypes\<close>, \<^verbatim>\<open>blockTypes\<close>, \<^verbatim>\<open>sameAs\<close>) and the
  \<^verbatim>\<open>blocks\<close> of a model are plain objects: an association list in insertion order.
  Reading \<^verbatim>\<open>obj[key]\<close> finds an own property, or a property every plain object inherits
  from \<^verbatim>\<open>Object.prototype\<close> (a function or object that is truthy and has no property
  \<^verbatim>\<open>set\<close> or \<^verbatim>\<open>name\<close> of the tables' kind), or \<^verbatim>\<open>undefined\<close>.
  Writing \<^verbatim>\<open>obj[key] = v\<close> is \<open>AList.update\<close>: an existing key keeps its place, a new key
  goes last.
\<close>

datatype 'a property = Own 'a | Inherited | Undefined

definition objectPrototype :: "string list" where
  "objectPrototype =
     [''constructor'', ''hasOwnProperty'', ''isPrototypeOf'', ''propertyIsEnumerable'',
      ''toLocaleString'', ''toString'', ''valueOf'', ''__proto__'',
      ''__defineGetter__'', ''__defineSetter__'', ''__lookupGetter__'', ''__lookupSetter__'']"

definition js_get :: "(string \<times> 'a) list \<Rightarrow> string \<Rightarrow> 'a property" where
  "js_get obj key =
     (case map_of obj key of
        Some v \<Rightarrow> Own v
      | None \<Rightarrow> (if key \<in> set objectPrototype then Inherited else Undefined))"

section \<open>The tag registry\<close>

text \<open>
  The three setter functions \<^verbatim>\<open>continuous\<close>, \<^verbatim>\<open>propertied\<close> and \<^verbatim>\<open>singled\<close> are stored in
  the tables and compared by identity (\<^verbatim>\<open>blockTypes[blockName].set === type\<close>); the
  datatype names them.
\<close>

datatype setter = Continuous | Propertied | Singled

definition tagTypes :: "(string \<times> (setter \<times> string)) list" where
  "tagTypes =
     [(''B'', (Continuous, ''bold'')),
      (''I'', (Continuous, ''italic'')),
      (''U'', (Continuous, ''underline'')),
      (''EM'', (Continuous, ''emphasis'')),
      (''STRONG'', (Continuous, ''strong'')),
      (''PRE'', (Continuous, ''pre'')),
      (''DEL'', (Continuous, ''del'')),
      (''H1'', (Continuous, ''h1'')),
      (''H2'', (Continuous, ''h2'')),
      (''H3'', (Continuous, ''h3'')),
      (''H4'', (Continuous, ''h4'')),
      (''H5'', (Continuous, ''h5'')),
      (''H6'', (Continuous, ''h6'')),
      (''A'', (Propertied, ''link'')),
      (''SPAN'', (Propertied, ''span'')),
      (''BLOCKQUOTE'', (Propertied, ''block quote'')),
      (''Q'', (Propertied, ''quote'')),
      (''CITE'', (Propertied, ''cite'')),
      (''CODE'', (Propertied, ''code'')),
      (''BR'', (Singled, ''soft return''))]"

text \<open>
  \<^verbatim>\<open>blockTypes = _.transform(tagTypes, function (obj, tag, name) {
     obj[tag.name] = { set: tag.set, name: name }; }, {})\<close>
\<close>

definition blockTypes :: "(string \<times> (setter \<times> string)) list" where
  "blockTypes =
     foldl (\<lambda>obj (name, (setr, tagName)). AList.update tagName (setr, name) obj) [] tagTypes"

definition sameAs :: "(string \<times> string) list" where
  "sameAs =
     [(''B'', ''STRONG''),
      (''U'', ''EM''),
      (''I'', ''EM''),
      (''H1'', ''H2''),
      (''H3'', ''H2''),
      (''H4'', ''H2''),
      (''H5'', ''H2''),
      (''H6'', ''H2''),
      (''STRIKE'', ''DEL'')]"

section \<open>The range model\<close>

text \<open>
  A model is \<^verbatim>\<open>{text: string, blocks: object}\<close>. The list stored under a kind name is
  a list of numbers (continuous and singled kinds) or a list of objects
  \<^verbatim>\<open>{start, end, ...attributes}\<close> (propertied kinds). Offsets are integers, the text is
  the list of its code units, attribute values are strings.
\<close>

record pblock =
  start :: int
  end' :: int
  attributes :: "(string \<times> string) list"

datatype blocklist = Nums "int list" | Objs "pblock list"

record model =
  text' :: string
  blocks :: "(string \<times> blocklist) list"

text \<open>
  What the source throws, by the place that throws it:
  \<^item> \<open>UndefinedBlockType k\<close>: \<^verbatim>\<open>blockTypes[k]\<close> is \<^verbatim>\<open>undefined\<close> and \<^verbatim>\<open>.set\<close> is read from it
    (a TypeError, in \<^verbatim>\<open>getBlocksOfType\<close>);
  \<^item> \<open>UndefinedTagType\<close>: \<^verbatim>\<open>tagTypes[name]\<close> has no callable \<^verbatim>\<open>set\<close> (a TypeError, in
    \<^verbatim>\<open>fromElement\<close>);
  \<^item> \<open>NullNodeValue\<close>: \<^verbatim>\<open>walker.currentNode.nodeValue.length\<close> when the walker found no
    text node and still stands on the root (a TypeError, in \<^verbatim>\<open>getTextNodeTargets\<close>);
  \<^item> \<open>NotFoundError\<close>: \<^verbatim>\<open>insertBefore\<close> with a reference node that is not a child.

  \<open>OutsideModel\<close> is no exception of the source: it marks an input outside the typed
  model of this theory (a list of objects under a continuous or singled kind, a list of
  numbers under a propertied kind, a continuous list read past its end, an attribute
  named \<^verbatim>\<open>start\<close> or \<^verbatim>\<open>end\<close>), where JavaScript would go on with \<^verbatim>\<open>NaN\<close> or
  \<^verbatim>\<open>undefined\<close>.
\<close>

datatype error =
  UndefinedBlockType string
  | UndefinedTagType
  | NullNodeValue
  | NotFoundError
  | OutsideModel

text \<open>An empty array is an empty list of either shape.\<close>

fun nums_of :: "blocklist \<Rightarrow> error + int list" where
  "nums_of (Nums xs) = Inr xs"
| "nums_of (Objs []) = Inr []"
| "nums_of (Objs (b # bs)) = Inl OutsideModel"

fun objs_of :: "blocklist \<Rightarrow> error + pblock list" where
  "objs_of (Objs bs) = Inr bs"
| "objs_of (Nums []) = Inr []"
| "objs_of (Nums (x # xs)) = Inl OutsideModel"

text \<open>
  \<^verbatim>\<open>String.prototype.substr(start, length)\<close>: a negative start counts from the end, a
  missing length means to the end, both are clamped to the string.
\<close>

definition substr :: "string \<Rightarrow> int \<Rightarrow> int option \<Rightarrow> string" where
  "substr s from len =
     (let size = int (length s);
          intStart = (if from < 0 then max (size + from) 0 else min from size);
          intLength = (case len of None \<Rightarrow> size | Some l \<Rightarrow> min (max l 0) size)
      in take (nat intLength) (drop (nat intStart) s))"

text \<open>\<^verbatim>\<open>m.blocks[blockType] = list\<close>\<close>

definition setBlocks :: "model \<Rightarrow> string \<Rightarrow> blocklist \<Rightarrow> model" where
  "setBlocks m blockType list = m\<lparr>blocks := AList.update blockType list (blocks m)\<rparr>"

text \<open>\<^verbatim>\<open>if (list.length > 0) { m.blocks[blockType] = list; }\<close>\<close>

definition setBlocksIfAny :: "model \<Rightarrow> string \<Rightarrow> blocklist \<Rightarrow> model" where
  "setBlocksIfAny m blockType list =
     (if list = Nums [] \<or> list = Objs [] then m else setBlocks m blockType list)"

section \<open>Picking the blocks of one kind\<close>

text \<open>
  \<^verbatim>\<open>_.pickBy(blocks, function (block, blockName) {
     return blockTypes[blockName].set === type; })\<close>:
  the keys are visited in order; an own entry of \<^verbatim>\<open>blockTypes\<close> is compared, an inherited
  property has \<^verbatim>\<open>set\<close> undefined and is never picked, and \<^verbatim>\<open>undefined.set\<close> throws.
\<close>

fun getBlocksOfType :: "(string \<times> blocklist) list \<Rightarrow> setter \<Rightarrow> error + (string \<times> blocklist) list" where
  "getBlocksOfType [] type = Inr []"
| "getBlocksOfType ((blockName, block) # rest) type =
     (case js_get blockTypes blockName of
        Undefined \<Rightarrow> Inl (UndefinedBlockType blockName)
      | Inherited \<Rightarrow> getBlocksOfType rest type
      | Own (setr, tagName) \<Rightarrow>
          (case getBlocksOfType rest type of
             Inl e \<Rightarrow> Inl e
           | Inr picked \<Rightarrow> Inr (if setr = type then (blockName, block) # picked else picked)))"

section \<open>Binary search and the overlap count\<close>

text \<open>
  \<^verbatim>\<open>getBinarySortedInsertPosition(list, value)\<close>: \<open>low\<close> and \<open>high\<close> are integers
  (\<open>high\<close> starts at \<open>length - 1\<close>, which is \<open>-1\<close> on the empty list);
  \<^verbatim>\<open>high - low >> 1\<close> halves a difference that is not negative inside the loop.
\<close>

function searchLoop :: "int list \<Rightarrow> int \<Rightarrow> int \<Rightarrow> int \<Rightarrow> int" where
  "searchLoop list val low high =
     (if low \<le> high then
        (let midpoint = low + (high - low) div 2;
             midValue = list ! nat midpoint
         in if midValue < val then searchLoop list val (midpoint + 1) high
            else if midValue > val then searchLoop list val low (midpoint - 1)
            else midpoint)
      else low)"
  by pat_completeness auto
termination
  by (relation "measure (\<lambda>(list, val, low, high). nat (high - low + 1))") auto

declare searchLoop.simps [simp del]

definition getBinarySortedInsertPosition :: "int list \<Rightarrow> int \<Rightarrow> nat" where
  "getBinarySortedInsertPosition list val = nat (searchLoop list val 0 (int (length list) - 1))"

text \<open>
  \<^verbatim>\<open>getOverlapCount(blockA, ...otherBlocks)\<close>: the pairs of each other block are read at
  \<^verbatim>\<open>blockB[j]\<close> and \<^verbatim>\<open>blockB[j + 1]\<close>. On a list of odd length the last \<^verbatim>\<open>blockB[j + 1]\<close> is
  \<^verbatim>\<open>undefined\<close>, which compares neither less nor greater: the search returns its first
  midpoint.
\<close>

definition positionOfUndefined :: "int list \<Rightarrow> nat" where
  "positionOfUndefined list = (if list = [] then 0 else (length list - 1) div 2)"

fun countPairs :: "int list \<Rightarrow> int list \<Rightarrow> nat" where
  "countPairs blockA [] = 0"
| "countPairs blockA [x] =
     (if getBinarySortedInsertPosition blockA x \<noteq> positionOfUndefined blockA then 1 else 0)"
| "countPairs blockA (x # y # rest) =
     (if getBinarySortedInsertPosition blockA x \<noteq> getBinarySortedInsertPosition blockA y
      then 1 else 0) + countPairs blockA rest"

definition getOverlapCount :: "int list \<Rightarrow> int list list \<Rightarrow> nat" where
  "getOverlapCount blockA otherBlocks = sum_list (map (countPairs blockA) otherBlocks)"

section \<open>The markup tree\<close>

text \<open>
  The tree collaborator, as far as \<^verbatim>\<open>index.js\<close> uses it: a text node has an identity and
  a \<^verbatim>\<open>nodeValue\<close>; an element has a \<^verbatim>\<open>nodeName\<close>, its attributes in order and its children.
  The argument of \<^verbatim>\<open>fromElement\<close> is a document fragment or a single node, which
  \<^verbatim>\<open>normalizeElementAsDocument\<close> appends to a new fragment.
\<close>

datatype node = Text nat string | Element string "(string \<times> string) list" "node list"

datatype el = DocumentFragment "node list" | Node node

definition normalizeElementAsDocument :: "el \<Rightarrow> node list" where
  "normalizeElementAsDocument e = (case e of DocumentFragment children \<Rightarrow> children | Node n \<Rightarrow> [n])"

text \<open>
  \<^verbatim>\<open>contentTextOnly(node)\<close> looks at the parent of a text node: \<open>Some name\<close> is an element
  parent, \<open>None\<close> the fragment.
\<close>

definition contentTextOnly :: "string option \<Rightarrow> bool" where
  "contentTextOnly parent =
     (let isScript = (parent = Some ''SCRIPT'');
          isStyle = (parent = Some ''STYLE'')
      in \<not> (isScript \<or> isStyle))"

text \<open>
  The nodes a \<^verbatim>\<open>TreeWalker\<close> with \<^verbatim>\<open>NodeFilter.SHOW_TEXT\<close> and the filter
  \<^verbatim>\<open>contentTextOnly\<close> stops at, in document order. The filter returns a boolean:
  \<^verbatim>\<open>true\<close> is \<^verbatim>\<open>FILTER_ACCEPT\<close> (1), \<^verbatim>\<open>false\<close> is 0, which is neither accept nor reject,
  so the walker goes on into the children of a node it does not stop at.
\<close>

fun textNodes :: "string option \<Rightarrow> node \<Rightarrow> (nat \<times> string) list" where
  "textNodes parent (Text i v) = (if contentTextOnly parent then [(i, v)] else [])"
| "textNodes parent (Element name attrs children) = concat (map (textNodes (Some name)) children)"

definition textNodesOf :: "node list \<Rightarrow> (nat \<times> string) list" where
  "textNodesOf children = concat (map (textNodes None) children)"

text \<open>\<^verbatim>\<open>getContentText(el)\<close>: the walker visits the descendants of \<open>el\<close>.\<close>

fun getContentText :: "node \<Rightarrow> string" where
  "getContentText (Text i v) = []"
| "getContentText (Element name attrs children) =
     concat (map snd (concat (map (textNodes (Some name)) children)))"

fun nodeName :: "node \<Rightarrow> string" where
  "nodeName (Text i v) = ''#text''"
| "nodeName (Element name attrs children) = name"

text \<open>
  \<^verbatim>\<open>getAttributes(el)\<close> writes \<^verbatim>\<open>props[attr.name] = attr.value\<close> into a plain object, where
  writing a string to \<^verbatim>\<open>__proto__\<close> changes nothing.
\<close>

definition getAttributes :: "node \<Rightarrow> (string \<times> string) list" where
  "getAttributes n =
     (case n of
        Text i v \<Rightarrow> []
      | Element name attrs children \<Rightarrow>
          foldl (\<lambda>props (attrName, v). if attrName = ''__proto__'' then props
                                         else AList.update attrName v props) [] attrs)"

text \<open>
  \<^verbatim>\<open>getNodeName(node)\<close>: \<^verbatim>\<open>sameAs[nodeName]\<close> when it is truthy. \<open>None\<close> is the inherited
  function or object, which is no string and names no entry of \<^verbatim>\<open>tagTypes\<close>.
\<close>

definition getNodeName :: "node \<Rightarrow> string option" where
  "getNodeName n =
     (case js_get sameAs (nodeName n) of
        Own alias \<Rightarrow> Some alias
      | Inherited \<Rightarrow> None
      | Undefined \<Rightarrow> Some (nodeName n))"

text \<open>\<^verbatim>\<open>tagTypes[name]\<close> for a name that is a string, where an entry of the table is needed.\<close>

definition tagType :: "string option \<Rightarrow> error + setter \<times> string" where
  "tagType name =
     (case name of
        None \<Rightarrow> Inl UndefinedTagType
      | Some n \<Rightarrow> (case js_get tagTypes n of Own t \<Rightarrow> Inr t | Inherited \<Rightarrow> Inl UndefinedTagType
                                          | Undefined \<Rightarrow> Inl UndefinedTagType))"

section \<open>Ingest\<close>

text \<open>
  \<^verbatim>\<open>block = model.blocks[tagBlockName]; if (!block) { block = []; ... }\<close>: the kind names
  of the tables are no inherited names, so the read is a read of an own property.
\<close>

definition blockOf :: "model \<Rightarrow> string \<Rightarrow> blocklist" where
  "blockOf m tagBlockName = (case map_of (blocks m) tagBlockName of None \<Rightarrow> Nums [] | Some b \<Rightarrow> b)"

definition continuous :: "model \<Rightarrow> node \<Rightarrow> error + model" where
  "continuous m n =
     (let startPos = int (length (text' m));
          txt = getContentText n;
          endPos = startPos + int (length txt)
      in if startPos \<noteq> endPos then
           (case tagType (getNodeName n) of
              Inl e \<Rightarrow> Inl e
            | Inr (setr, tagBlockName) \<Rightarrow>
                (case nums_of (blockOf m tagBlockName) of
                   Inl e \<Rightarrow> Inl e
                 | Inr block \<Rightarrow>
                     (let blockLen = length block;
                          lastBlockEndIndex = blockLen - 1
                      in if blockLen \<ge> 2 \<and> block ! lastBlockEndIndex \<ge> startPos then
                           Inr (setBlocks m tagBlockName
                                  (Nums (block[lastBlockEndIndex := max (block ! lastBlockEndIndex) endPos])))
                         else
                           Inr (setBlocks m tagBlockName (Nums (block @ [startPos, endPos]))))))
         else Inr m)"

text \<open>
  \<^verbatim>\<open>obj = _.assign({ start: start, end: end}, properties)\<close>: an attribute named
  \<^verbatim>\<open>start\<close> or \<^verbatim>\<open>end\<close> would replace the offset by a string.
\<close>

definition propertied :: "model \<Rightarrow> node \<Rightarrow> error + model" where
  "propertied m n =
     (let startPos = int (length (text' m));
          txt = getContentText n;
          endPos = startPos + int (length txt)
      in if startPos \<noteq> endPos then
           (let properties = getAttributes n in
            if ''start'' \<in> fst ` set properties \<or> ''end'' \<in> fst ` set properties then Inl OutsideModel
            else
              (case tagType (Some (nodeName n)) of
                 Inl e \<Rightarrow> Inl e
               | Inr (setr, tagBlockName) \<Rightarrow>
                   (case objs_of (blockOf m tagBlockName) of
                      Inl e \<Rightarrow> Inl e
                    | Inr block \<Rightarrow>
                        Inr (setBlocks m tagBlockName
                               (Objs (block @ [\<lparr>start = startPos, end' = endPos, attributes = properties\<rparr>]))))))
         else Inr m)"

definition singled :: "model \<Rightarrow> node \<Rightarrow> error + model" where
  "singled m n =
     (let pos = int (length (text' m)) in
      case tagType (getNodeName n) of
        Inl e \<Rightarrow> Inl e
      | Inr (setr, tagBlockName) \<Rightarrow>
          (case nums_of (blockOf m tagBlockName) of
             Inl e \<Rightarrow> Inl e
           | Inr block \<Rightarrow> Inr (setBlocks m tagBlockName (Nums (block @ [pos])))))"

fun callSetter :: "setter \<Rightarrow> model \<Rightarrow> node \<Rightarrow> error + model" where
  "callSetter Continuous m n = continuous m n"
| "callSetter Propertied m n = propertied m n"
| "callSetter Singled m n = singled m n"

text \<open>
  The loop of \<^verbatim>\<open>fromElement\<close> over the walker with \<^verbatim>\<open>SHOW_ELEMENT | SHOW_TEXT\<close> and the
  filter \<^verbatim>\<open>knownTagsOnly\<close>, which is \<^verbatim>\<open>!!tagTypes[name]\<close> for an element (an inherited
  property is truthy) and \<^verbatim>\<open>contentTextOnly\<close> for a text node. A node the filter does
  not accept is passed over and its children are still visited.
\<close>

fun visitNode :: "string option \<Rightarrow> model \<Rightarrow> node \<Rightarrow> error + model"
  and visitNodes :: "string option \<Rightarrow> model \<Rightarrow> node list \<Rightarrow> error + model" where
  "visitNode parent m (Text i v) =
     Inr (if contentTextOnly parent then m\<lparr>text' := text' m @ v\<rparr> else m)"
| "visitNode parent m (Element name attrs children) =
     (case js_get tagTypes name of
        Undefined \<Rightarrow> visitNodes (Some name) m children
      | Inherited \<Rightarrow> Inl UndefinedTagType
      | Own known \<Rightarrow>
          (case tagType (getNodeName (Element name attrs children)) of
             Inl e \<Rightarrow> Inl e
           | Inr (setr, tagBlockName) \<Rightarrow>
               (case callSetter setr m (Element name attrs children) of
                  Inl e \<Rightarrow> Inl e
                | Inr m' \<Rightarrow> visitNodes (Some name) m' children)))"
| "visitNodes parent m [] = Inr m"
| "visitNodes parent m (n # ns) =
     (case visitNode parent m n of Inl e \<Rightarrow> Inl e | Inr m' \<Rightarrow> visitNodes parent m' ns)"

definition fromElement :: "el \<Rightarrow> error + model" where
  "fromElement e = visitNodes None \<lparr>text' = [], blocks = []\<rparr> (normalizeElementAsDocument e)"

section \<open>Split\<close>

text \<open>
  \<^verbatim>\<open>_.each(collection, f)\<close> where \<open>f\<close> updates the state and may throw: the first error
  ends the loop.
\<close>

fun each :: "('s \<Rightarrow> 'a \<Rightarrow> error + 's) \<Rightarrow> 'a list \<Rightarrow> 's \<Rightarrow> error + 's" where
  "each f [] s = Inr s"
| "each f (x # xs) s = (case f s x of Inl e \<Rightarrow> Inl e | Inr s' \<Rightarrow> each f xs s')"

text \<open>The body of the inner \<^verbatim>\<open>_.each(blocks, function (block) ...)\<close> of \<^verbatim>\<open>splitPropertiedBlocks\<close>.\<close>

definition pushPropertied :: "int \<Rightarrow> pblock list \<times> pblock list \<Rightarrow> pblock \<Rightarrow> pblock list \<times> pblock list" where
  "pushPropertied num acc block =
     (case acc of (beforeBlocks, afterBlocks) \<Rightarrow>
        if start block < num \<and> end' block < num then
          (beforeBlocks @ [block], afterBlocks)
        else if start block > num \<and> end' block > num then
          (beforeBlocks, afterBlocks @ [block\<lparr>start := start block - num, end' := end' block - num\<rparr>])
        else
          (beforeBlocks @ [block\<lparr>end' := num\<rparr>],
           afterBlocks @ [block\<lparr>start := 0, end' := end' block - num\<rparr>]))"

text \<open>The callback of the outer \<^verbatim>\<open>_.each\<close>, for one kind, on the state \<open>(before, after)\<close>.\<close>

definition splitPropertiedKind :: "int \<Rightarrow> model \<times> model \<Rightarrow> string \<times> blocklist \<Rightarrow> error + model \<times> model" where
  "splitPropertiedKind num s entry =
     (case objs_of (snd entry) of
        Inl e \<Rightarrow> Inl e
      | Inr bs \<Rightarrow>
          (case foldl (pushPropertied num) ([], []) bs of
             (beforeBlocks, afterBlocks) \<Rightarrow>
               Inr (setBlocksIfAny (fst s) (fst entry) (Objs beforeBlocks),
                    setBlocksIfAny (snd s) (fst entry) (Objs afterBlocks))))"

definition splitPropertiedBlocks :: "model \<Rightarrow> model \<Rightarrow> model \<Rightarrow> int \<Rightarrow> error + model \<times> model" where
  "splitPropertiedBlocks m before after num =
     (case getBlocksOfType (blocks m) Propertied of
        Inl e \<Rightarrow> Inl e
      | Inr picked \<Rightarrow> each (splitPropertiedKind num) picked (before, after))"

text \<open>
  The body of \<^verbatim>\<open>splitContinuousBlocks\<close> for one kind. With an odd index equal to the
  length, \<^verbatim>\<open>blocks[index]\<close> is \<^verbatim>\<open>undefined\<close> and the source stores \<^verbatim>\<open>NaN\<close>.
\<close>

definition splitContinuousList :: "int list \<Rightarrow> int \<Rightarrow> error + int list \<times> int list" where
  "splitContinuousList blockList num =
     (let index = getBinarySortedInsertPosition blockList num in
      if index mod 2 = 1 then
        (if index < length blockList then
           Inr (take (index - 1) blockList @ [blockList ! (index - 1), num],
                [0, blockList ! index - num] @ map (\<lambda>value. value - num) (drop (index + 1) blockList))
         else Inl OutsideModel)
      else
        Inr (take index blockList, map (\<lambda>value. value - num) (drop index blockList)))"

definition splitContinuousKind :: "int \<Rightarrow> model \<times> model \<Rightarrow> string \<times> blocklist \<Rightarrow> error + model \<times> model" where
  "splitContinuousKind num s entry =
     (case nums_of (snd entry) of
        Inl e \<Rightarrow> Inl e
      | Inr xs \<Rightarrow>
          (case splitContinuousList xs num of
             Inl e \<Rightarrow> Inl e
           | Inr (beforeBlocks, afterBlocks) \<Rightarrow>
               Inr (setBlocks (fst s) (fst entry) (Nums beforeBlocks),
                    setBlocks (snd s) (fst entry) (Nums afterBlocks))))"

definition splitContinuousBlocks :: "model \<Rightarrow> model \<Rightarrow> model \<Rightarrow> int \<Rightarrow> error + model \<times> model" where
  "splitContinuousBlocks m before after num =
     (case getBlocksOfType (blocks m) Continuous of
        Inl e \<Rightarrow> Inl e
      | Inr picked \<Rightarrow> each (splitContinuousKind num) picked (before, after))"

text \<open>The body of the inner \<^verbatim>\<open>_.each(blocks, function (pos) ...)\<close> of \<^verbatim>\<open>splitSingledBlocks\<close>.\<close>

definition pushSingled :: "int \<Rightarrow> int list \<times> int list \<Rightarrow> int \<Rightarrow> int list \<times> int list" where
  "pushSingled num acc pos =
     (case acc of (beforeBlocks, afterBlocks) \<Rightarrow>
        if pos < num then (beforeBlocks @ [pos], afterBlocks)
        else if pos > num then (beforeBlocks, afterBlocks @ [pos - num])
        else (beforeBlocks, afterBlocks))"

definition splitSingledKind :: "int \<Rightarrow> model \<times> model \<Rightarrow> string \<times> blocklist \<Rightarrow> error + model \<times> model" where
  "splitSingledKind num s entry =
     (case nums_of (snd entry) of
        Inl e \<Rightarrow> Inl e
      | Inr xs \<Rightarrow>
          (case foldl (pushSingled num) ([], []) xs of
             (beforeBlocks, afterBlocks) \<Rightarrow>
               Inr (setBlocksIfAny (fst s) (fst entry) (Nums beforeBlocks),
                    setBlocksIfAny (snd s) (fst entry) (Nums afterBlocks))))"

definition splitSingledBlocks :: "model \<Rightarrow> model \<Rightarrow> model \<Rightarrow> int \<Rightarrow> error + model \<times> model" where
  "splitSingledBlocks m before after num =
     (case getBlocksOfType (blocks m) Singled of
        Inl e \<Rightarrow> Inl e
      | Inr picked \<Rightarrow> each (splitSingledKind num) picked (before, after))"

definition split :: "model \<Rightarrow> int \<Rightarrow> error + model \<times> model" where
  "split m num =
     (let before = \<lparr>text' = substr (text' m) 0 (Some num), blocks = []\<rparr>;
          after = \<lparr>text' = substr (text' m) num None, blocks = []\<rparr>
      in case splitPropertiedBlocks m before after num of
           Inl e \<Rightarrow> Inl e
         | Inr (before, after) \<Rightarrow>
             (case splitContinuousBlocks m before after num of
                Inl e \<Rightarrow> Inl e
              | Inr (before, after) \<Rightarrow> splitSingledBlocks m before after num))"

section \<open>Concat\<close>

text \<open>\<^verbatim>\<open>_.assign(object, source)\<close>: every key of the source is written, in the source's order.\<close>

definition assign :: "(string \<times> 'a) list \<Rightarrow> (string \<times> 'a) list \<Rightarrow> (string \<times> 'a) list" where
  "assign object source = foldl (\<lambda>obj (key, v). AList.update key v obj) object source"

text \<open>\<^verbatim>\<open>_.mapValues(object, f)\<close> where \<open>f\<close> may fail.\<close>

fun mapValues :: "('a \<Rightarrow> error + 'b) \<Rightarrow> (string \<times> 'a) list \<Rightarrow> error + (string \<times> 'b) list" where
  "mapValues f [] = Inr []"
| "mapValues f ((key, v) # rest) =
     (case f v of
        Inl e \<Rightarrow> Inl e
      | Inr w \<Rightarrow> (case mapValues f rest of Inl e \<Rightarrow> Inl e | Inr ws \<Rightarrow> Inr ((key, w) # ws)))"

text \<open>
  The three concat functions have one shape: the lists picked from \<open>after\<close> are shifted
  by \<open>num\<close> into \<open>mergedBlocks\<close>, the lists picked from \<open>before\<close> are merged into it
  kind by kind, and the result is assigned to the blocks of the model. The callbacks
  are named after the function and the loop they belong to.
\<close>

definition shiftPropertied :: "int \<Rightarrow> blocklist \<Rightarrow> error + pblock list" where
  "shiftPropertied num blockList =
     (case objs_of blockList of
        Inl e \<Rightarrow> Inl e
      | Inr bs \<Rightarrow> Inr (map (\<lambda>block. block\<lparr>start := start block + num, end' := end' block + num\<rparr>) bs))"

definition mergePropertied :: "(string \<times> pblock list) list \<Rightarrow> string \<times> blocklist \<Rightarrow> error + (string \<times> pblock list) list" where
  "mergePropertied mergedBlocks entry =
     (case objs_of (snd entry) of
        Inl e \<Rightarrow> Inl e
      | Inr bs \<Rightarrow>
          (case map_of mergedBlocks (fst entry) of
             Some merged \<Rightarrow> Inr (AList.update (fst entry) (bs @ merged) mergedBlocks)
           | None \<Rightarrow> Inr (AList.update (fst entry) bs mergedBlocks)))"

definition concatPropertiedBlocks :: "model \<Rightarrow> model \<Rightarrow> model \<Rightarrow> error + model" where
  "concatPropertiedBlocks before after m =
     (let num = int (length (text' before)) in
      case getBlocksOfType (blocks after) Propertied of
        Inl e \<Rightarrow> Inl e
      | Inr pickedAfter \<Rightarrow>
          (case mapValues (shiftPropertied num) pickedAfter of
             Inl e \<Rightarrow> Inl e
           | Inr mergedBlocks \<Rightarrow>
               (case getBlocksOfType (blocks before) Propertied of
                  Inl e \<Rightarrow> Inl e
                | Inr pickedBefore \<Rightarrow>
                    (case each mergePropertied pickedBefore mergedBlocks of
                       Inl e \<Rightarrow> Inl e
                     | Inr mergedBlocks \<Rightarrow>
                         Inr (m\<lparr>blocks := assign (blocks m) (map (\<lambda>entry. (fst entry, Objs (snd entry))) mergedBlocks)\<rparr>)))))"

definition shiftNumbers :: "int \<Rightarrow> blocklist \<Rightarrow> error + int list" where
  "shiftNumbers num blockList =
     (case nums_of blockList of
        Inl e \<Rightarrow> Inl e
      | Inr xs \<Rightarrow> Inr (map (\<lambda>value. value + num) xs))"

text \<open>
  \<^verbatim>\<open>_.last(blocks) === num && _.first(mergedBlocks[blockType]) === num\<close>: on an empty
  list \<^verbatim>\<open>_.last\<close> and \<^verbatim>\<open>_.first\<close> are \<^verbatim>\<open>undefined\<close>.
\<close>

definition mergeContinuous :: "int \<Rightarrow> (string \<times> int list) list \<Rightarrow> string \<times> blocklist \<Rightarrow> error + (string \<times> int list) list" where
  "mergeContinuous num mergedBlocks entry =
     (case nums_of (snd entry) of
        Inl e \<Rightarrow> Inl e
      | Inr xs \<Rightarrow>
          (case map_of mergedBlocks (fst entry) of
             Some merged \<Rightarrow>
               (if xs \<noteq> [] \<and> last xs = num \<and> merged \<noteq> [] \<and> hd merged = num
                then Inr (AList.update (fst entry) (butlast xs @ tl merged) mergedBlocks)
                else Inr (AList.update (fst entry) (xs @ merged) mergedBlocks))
           | None \<Rightarrow> Inr (AList.update (fst entry) xs mergedBlocks)))"

definition concatContinuousBlocks :: "model \<Rightarrow> model \<Rightarrow> model \<Rightarrow> error + model" where
  "concatContinuousBlocks before after m =
     (let num = int (length (text' before)) in
      case getBlocksOfType (blocks after) Continuous of
        Inl e \<Rightarrow> Inl e
      | Inr pickedAfter \<Rightarrow>
          (case mapValues (shiftNumbers num) pickedAfter of
             Inl e \<Rightarrow> Inl e
           | Inr mergedBlocks \<Rightarrow>
               (case getBlocksOfType (blocks before) Continuous of
                  Inl e \<Rightarrow> Inl e
                | Inr pickedBefore \<Rightarrow>
                    (case each (mergeContinuous num) pickedBefore mergedBlocks of
                       Inl e \<Rightarrow> Inl e
                     | Inr mergedBlocks \<Rightarrow>
                         Inr (m\<lparr>blocks := assign (blocks m) (map (\<lambda>entry. (fst entry, Nums (snd entry))) mergedBlocks)\<rparr>)))))"

definition mergeSingled :: "(string \<times> int list) list \<Rightarrow> string \<times> blocklist \<Rightarrow> error + (string \<times> int list) list" where
  "mergeSingled mergedBlocks entry =
     (case nums_of (snd entry) of
        Inl e \<Rightarrow> Inl e
      | Inr xs \<Rightarrow>
          (case map_of mergedBlocks (fst entry) of
             Some merged \<Rightarrow> Inr (AList.update (fst entry) (xs @ merged) mergedBlocks)
           | None \<Rightarrow> Inr (AList.update (fst entry) xs mergedBlocks)))"

definition concatSingledBlocks :: "model \<Rightarrow> model \<Rightarrow> model \<Rightarrow> error + model" where
  "concatSingledBlocks before after m =
     (let num = int (length (text' before)) in
      case getBlocksOfType (blocks after) Singled of
        Inl e \<Rightarrow> Inl e
      | Inr pickedAfter \<Rightarrow>
          (case mapValues (shiftNumbers num) pickedAfter of
             Inl e \<Rightarrow> Inl e
           | Inr mergedBlocks \<Rightarrow>
               (case getBlocksOfType (blocks before) Singled of
                  Inl e \<Rightarrow> Inl e
                | Inr pickedBefore \<Rightarrow>
                    (case each mergeSingled pickedBefore mergedBlocks of
                       Inl e \<Rightarrow> Inl e
                     | Inr mergedBlocks \<Rightarrow>
                         Inr (m\<lparr>blocks := assign (blocks m) (map (\<lambda>entry. (fst entry, Nums (snd entry))) mergedBlocks)\<rparr>)))))"

definition concat_models :: "model \<Rightarrow> model \<Rightarrow> error + model" where
  "concat_models before after =
     (let m = \<lparr>text' = text' before @ text' after, blocks = []\<rparr>
      in case concatPropertiedBlocks before after m of
           Inl e \<Rightarrow> Inl e
         | Inr m \<Rightarrow>
             (case concatContinuousBlocks before after m of
                Inl e \<Rightarrow> Inl e
              | Inr m \<Rightarrow> concatSingledBlocks before after m))"

section \<open>Emit\<close>

text \<open>
  \<^verbatim>\<open>toElement\<close> edits the tree in place. The state is the list of the fragment's
  children, the text nodes that were removed from the tree (with their values), and the
  next unused node identity.
\<close>

record dom =
  childNodes :: "node list"
  removed :: "(nat \<times> string) list"
  fresh :: nat

text \<open>
  Modelled from the spec: the text-to-node collaborator \<^verbatim>\<open>domify\<close>, which is no part of
  \<^verbatim>\<open>index.js\<close>: it "converts a plain string into one or more text nodes suitable for
  insertion into the tree", here one text node with a new identity.
\<close>

definition domify :: "string \<Rightarrow> nat \<Rightarrow> node" where
  "domify txt i = Text i txt"

text \<open>
  An item of the list of \<^verbatim>\<open>getTextNodeTargets\<close>: \<^verbatim>\<open>{node, start, end}\<close>, where
  \<^verbatim>\<open>start\<close> and \<^verbatim>\<open>end\<close> may be missing.
\<close>

datatype item = Item nat "int option" "int option"

text \<open>\<^verbatim>\<open>walker.nextNode()\<close> on the last text node returns null and leaves \<^verbatim>\<open>currentNode\<close>.\<close>

definition nextNode :: "(nat \<times> string) list \<Rightarrow> nat \<Rightarrow> nat" where
  "nextNode ts i = (if i + 1 < length ts then i + 1 else i)"

text \<open>
  \<^verbatim>\<open>while (str.length + walker.currentNode.nodeValue.length < start) {
     str += walker.currentNode.nodeValue; walker.nextNode(); }\<close>
  with \<open>n\<close> the length of \<^verbatim>\<open>str\<close>. On an empty last text node the loop does not end.
\<close>

partial_function (option) walkToStart :: "(nat \<times> string) list \<Rightarrow> nat \<Rightarrow> nat \<Rightarrow> int \<Rightarrow> (nat \<times> nat) option" where
  "walkToStart ts i n startPos =
     (if int n + int (length (snd (ts ! i))) < startPos
      then walkToStart ts (nextNode ts i) (n + length (snd (ts ! i))) startPos
      else Some (i, n))"

declare walkToStart.simps [code]

text \<open>
  \<^verbatim>\<open>while (str.length < end) { walker.nextNode(); str += walker.currentNode.nodeValue;
     list.push({node: walker.currentNode}); }\<close>
\<close>

partial_function (option) walkToEnd :: "(nat \<times> string) list \<Rightarrow> nat \<Rightarrow> nat \<Rightarrow> int \<Rightarrow> item list \<Rightarrow> (nat \<times> nat \<times> item list) option" where
  "walkToEnd ts i n endPos list =
     (if int n < endPos
      then walkToEnd ts (nextNode ts i) (n + length (snd (ts ! nextNode ts i))) endPos
             (list @ [Item (fst (ts ! nextNode ts i)) None None])
      else Some (i, n, list))"

declare walkToEnd.simps [code]

fun setEnd :: "item list \<Rightarrow> int \<Rightarrow> item list" where
  "setEnd [] e = []"
| "setEnd [Item i s old] e = [Item i s (Some e)]"
| "setEnd (x # y # rest) e = x # setEnd (y # rest) e"

text \<open>
  \<^verbatim>\<open>getTextNodeTargets(el, start, end)\<close>. With no text node in the tree the walker stays
  on the root, whose \<^verbatim>\<open>nodeValue\<close> is null. A missing \<^verbatim>\<open>end\<close> (the last number of a
  continuous list of odd length) compares false and leaves \<^verbatim>\<open>NaN\<close> as the item's end,
  which \<^verbatim>\<open>splitTextNode\<close> reads as missing. The outer \<open>option\<close> is \<open>None\<close> when a loop
  does not end.
\<close>

definition getTextNodeTargets :: "node list \<Rightarrow> int \<Rightarrow> int option \<Rightarrow> (error + item list) option" where
  "getTextNodeTargets root startPos endPos =
     (let ts = textNodesOf root in
      if ts = [] then Some (Inl NullNodeValue)
      else
        (case walkToStart ts 0 0 startPos of
           None \<Rightarrow> None
         | Some (i, n) \<Rightarrow>
             (let list = [Item (fst (ts ! i)) (Some (startPos - int n)) None];
                  n' = n + length (snd (ts ! i))
              in case endPos of
                   None \<Rightarrow> Some (Inr list)
                 | Some e \<Rightarrow>
                     (case walkToEnd ts i n' e list of
                        None \<Rightarrow> None
                      | Some (j, n'', list') \<Rightarrow>
                          Some (Inr (setEnd list' (int (length (snd (ts ! j))) - (int n'' - e))))))))"

text \<open>Replacing the text node with identity \<open>i\<close> by a list of nodes, where it stands.\<close>

fun replaceText :: "nat \<Rightarrow> node list \<Rightarrow> node \<Rightarrow> node list" where
  "replaceText i new (Text j v) = (if i = j then new else [Text j v])"
| "replaceText i new (Element name attrs children) =
     [Element name attrs (concat (map (replaceText i new) children))]"

text \<open>Every text node of a subtree, whatever its parent.\<close>

fun allTextNodes :: "node \<Rightarrow> (nat \<times> string) list" where
  "allTextNodes (Text j v) = [(j, v)]"
| "allTextNodes (Element name attrs children) = concat (map allTextNodes children)"

text \<open>
  The value of a text node and whether it is still in the tree. A node of the list that
  is in neither place does not occur: every target was taken from the tree.
\<close>

definition nodeValue :: "dom \<Rightarrow> nat \<Rightarrow> string \<times> bool" where
  "nodeValue d i =
     (case map_of (concat (map allTextNodes (childNodes d))) i of
        Some v \<Rightarrow> (v, True)
      | None \<Rightarrow> (case map_of (removed d) i of Some v \<Rightarrow> (v, False) | None \<Rightarrow> ([], False)))"

text \<open>
  The edit both \<^verbatim>\<open>splitTextNode\<close> and \<^verbatim>\<open>addSingledBlocks\<close> end with: the new element goes
  before the text node, a text node with \<open>startText\<close> before the element if it is not
  empty, and the text node keeps \<open>endText\<close> or is removed. The element is given by its
  children's identities \<open>k\<close>.
\<close>

definition insertBlock :: "dom \<Rightarrow> nat \<Rightarrow> string \<Rightarrow> node \<Rightarrow> string \<Rightarrow> string \<Rightarrow> nat \<Rightarrow> dom" where
  "insertBlock d i txt blockEl startText endText k =
     (let new = (if length startText > 0 then [domify startText k] else [])
                @ [blockEl]
                @ (if length endText > 0 then [Text i endText] else [])
      in \<lparr>childNodes = concat (map (replaceText i new) (childNodes d)),
          removed = (if length endText > 0 then removed d else (i, txt) # removed d),
          fresh = k + 1\<rparr>)"

text \<open>\<^verbatim>\<open>item.start || 0\<close> and \<^verbatim>\<open>item.end || text.length\<close>: a missing value and 0 are falsy.\<close>

definition orElse :: "int option \<Rightarrow> int \<Rightarrow> int" where
  "orElse v d = (case v of None \<Rightarrow> d | Some x \<Rightarrow> (if x = 0 then d else x))"

text \<open>
  \<^verbatim>\<open>splitTextNode(blockType, rootEl, blockAttributes, item)\<close>. A text node that was
  removed has no parent, so \<^verbatim>\<open>parentNode\<close> is the root and \<^verbatim>\<open>insertBefore\<close> throws.
  \<^verbatim>\<open>setAttribute\<close> is taken to store the attribute under its name.
\<close>

definition splitTextNode :: "string \<Rightarrow> (string \<times> string) list \<Rightarrow> dom \<Rightarrow> item \<Rightarrow> error + dom" where
  "splitTextNode blockType blockAttributes d it =
     (case it of Item i itemStart itemEnd \<Rightarrow>
        (case nodeValue d i of (txt, attached) \<Rightarrow>
           (let startPos = orElse itemStart 0;
                endPos = orElse itemEnd (int (length txt));
                startText = substr txt 0 (Some startPos);
                middleText = substr txt startPos (Some (endPos - startPos));
                endText = substr txt endPos None
            in if startPos = endPos then Inr d
               else
                 (case js_get blockTypes blockType of
                    Own (setr, tagName) \<Rightarrow>
                      (let blockEl = Element tagName
                                       (foldl (\<lambda>attrs (key, v). AList.update key v attrs) [] blockAttributes)
                                       [domify middleText (fresh d)]
                       in if attached
                          then Inr (insertBlock d i txt blockEl startText endText (fresh d + 1))
                          else Inl NotFoundError)
                  | Inherited \<Rightarrow> Inl (UndefinedBlockType blockType)
                  | Undefined \<Rightarrow> Inl (UndefinedBlockType blockType)))))"

text \<open>
  \<^verbatim>\<open>addSingledBlocks(blockType, rootEl, item)\<close>: \<^verbatim>\<open>text.substr(0, undefined)\<close> and
  \<^verbatim>\<open>text.substr(undefined)\<close> are both the whole text.
\<close>

definition addSingledBlocks :: "string \<Rightarrow> dom \<Rightarrow> item \<Rightarrow> error + dom" where
  "addSingledBlocks blockType d it =
     (case it of Item i itemStart itemEnd \<Rightarrow>
        (case nodeValue d i of (txt, attached) \<Rightarrow>
           (let startText = (case itemStart of None \<Rightarrow> txt | Some pos \<Rightarrow> substr txt 0 (Some pos));
                endText = (case itemStart of None \<Rightarrow> txt | Some pos \<Rightarrow> substr txt pos None)
            in case js_get blockTypes blockType of
                 Own (setr, tagName) \<Rightarrow>
                   (if attached
                    then Inr (insertBlock d i txt (Element tagName [] []) startText endText (fresh d))
                    else Inl NotFoundError)
               | Inherited \<Rightarrow> Inl (UndefinedBlockType blockType)
               | Undefined \<Rightarrow> Inl (UndefinedBlockType blockType))))"

text \<open>A loop over a list whose body may throw or not return.\<close>

fun forEach :: "('s \<Rightarrow> 'a \<Rightarrow> (error + 's) option) \<Rightarrow> 'a list \<Rightarrow> 's \<Rightarrow> (error + 's) option" where
  "forEach f [] s = Some (Inr s)"
| "forEach f (x # xs) s =
     (case f s x of None \<Rightarrow> None | Some (Inl e) \<Rightarrow> Some (Inl e) | Some (Inr s') \<Rightarrow> forEach f xs s')"

text \<open>
  One range of any kind: \<^verbatim>\<open>list = getTextNodeTargets(el, start, end); _.each(list, f)\<close>.
\<close>

definition eachTarget :: "(dom \<Rightarrow> item \<Rightarrow> error + dom) \<Rightarrow> dom \<Rightarrow> int \<Rightarrow> int option \<Rightarrow> (error + dom) option" where
  "eachTarget f d startPos endPos =
     (case getTextNodeTargets (childNodes d) startPos endPos of
        None \<Rightarrow> None
      | Some (Inl e) \<Rightarrow> Some (Inl e)
      | Some (Inr list) \<Rightarrow> Some (each f list d))"

text \<open>The callbacks of \<^verbatim>\<open>_.forOwn\<close> in the three functions below, for one kind.\<close>

definition addPropertiedKind :: "dom \<Rightarrow> string \<times> blocklist \<Rightarrow> (error + dom) option" where
  "addPropertiedKind d entry =
     (case objs_of (snd entry) of
        Inl e \<Rightarrow> Some (Inl e)
      | Inr bs \<Rightarrow>
          forEach (\<lambda>d block. eachTarget (splitTextNode (fst entry) (attributes block)) d
                               (start block) (Some (end' block)))
                  bs d)"

definition addPropertiedBlocksToElement :: "dom \<Rightarrow> model \<Rightarrow> (error + dom) option" where
  "addPropertiedBlocksToElement d m =
     (case getBlocksOfType (blocks m) Propertied of
        Inl e \<Rightarrow> Some (Inl e)
      | Inr propertiedBlocks \<Rightarrow> forEach addPropertiedKind propertiedBlocks d)"

text \<open>
  \<^verbatim>\<open>sortContinuousBlocks(blocks)\<close>: with exactly two kinds, the two entries are reversed
  when the forward count is greater than the backward count.
\<close>

definition sortContinuousBlocks :: "(string \<times> int list) list \<Rightarrow> (string \<times> int list) list" where
  "sortContinuousBlocks blockLists =
     (if length blockLists = 2 then
        (let keys = map fst blockLists;
             forwardCount = getOverlapCount (snd (blockLists ! 0)) [snd (blockLists ! 1)];
             backwardCount = getOverlapCount (snd (blockLists ! 1)) [snd (blockLists ! 0)]
         in if forwardCount > backwardCount then rev blockLists else blockLists)
      else blockLists)"

text \<open>The pairs a loop \<^verbatim>\<open>for (i = 0; i < list.length; i = i + 2)\<close> reads at \<open>i\<close> and \<open>i + 1\<close>.\<close>

fun pairsOf :: "int list \<Rightarrow> (int \<times> int option) list" where
  "pairsOf [] = []"
| "pairsOf [x] = [(x, None)]"
| "pairsOf (x # y # rest) = (x, Some y) # pairsOf rest"

definition addContinuousKind :: "dom \<Rightarrow> string \<times> int list \<Rightarrow> (error + dom) option" where
  "addContinuousKind d entry =
     forEach (\<lambda>d range. eachTarget (splitTextNode (fst entry) []) d (fst range) (snd range))
             (pairsOf (snd entry)) d"

definition addContinuousBlocksToElement :: "dom \<Rightarrow> model \<Rightarrow> (error + dom) option" where
  "addContinuousBlocksToElement d m =
     (case getBlocksOfType (blocks m) Continuous of
        Inl e \<Rightarrow> Some (Inl e)
      | Inr picked \<Rightarrow>
          (case mapValues nums_of picked of
             Inl e \<Rightarrow> Some (Inl e)
           | Inr continuousBlocks \<Rightarrow>
               forEach addContinuousKind (sortContinuousBlocks continuousBlocks) d))"

definition addSingledKind :: "dom \<Rightarrow> string \<times> blocklist \<Rightarrow> (error + dom) option" where
  "addSingledKind d entry =
     (case nums_of (snd entry) of
        Inl e \<Rightarrow> Some (Inl e)
      | Inr ps \<Rightarrow>
          forEach (\<lambda>d pos. eachTarget (addSingledBlocks (fst entry)) d pos (Some pos)) ps d)"

definition addSingledBlocksToElement :: "dom \<Rightarrow> model \<Rightarrow> (error + dom) option" where
  "addSingledBlocksToElement d m =
     (case getBlocksOfType (blocks m) Singled of
        Inl e \<Rightarrow> Some (Inl e)
      | Inr singledBlocks \<Rightarrow> forEach addSingledKind singledBlocks d)"

definition toElement :: "model \<Rightarrow> (error + node list) option" where
  "toElement m =
     (let d = \<lparr>childNodes = normalizeElementAsDocument (Node (domify (text' m) 0)), removed = [], fresh = 1\<rparr>
      in case addPropertiedBlocksToElement d m of
           None \<Rightarrow> None
         | Some (Inl e) \<Rightarrow> Some (Inl e)
         | Some (Inr d) \<Rightarrow>
             (case addContinuousBlocksToElement d m of
                None \<Rightarrow> None
              | Some (Inl e) \<Rightarrow> Some (Inl e)
              | Some (Inr d) \<Rightarrow>
                  (case addSingledBlocksToElement d m of
                     None \<Rightarrow> None
                   | Some (Inl e) \<Rightarrow> Some (Inl e)
                   | Some (Inr d) \<Rightarrow> Some (Inr (childNodes d)))))"

section \<open>Range models\<close>

text \<open>
  The predicates the theorems are stated with. \<open>hasSetter type k\<close>: the table
  \<^verbatim>\<open>blockTypes\<close> has an own entry for \<open>k\<close> whose setter is \<open>type\<close>. \<open>firstUnknown\<close>: the first
  key for which \<^verbatim>\<open>blockTypes[k]\<close> is \<^verbatim>\<open>undefined\<close>. \<open>rangeModel m\<close>: every key of the blocks of
  \<open>m\<close> is a kind name of the table and its list has the shape of the kind, a continuous
  list being of even length.
\<close>

definition hasSetter :: "setter \<Rightarrow> string \<Rightarrow> bool" where
  "hasSetter type blockName =
     (case js_get blockTypes blockName of
        Own (setr, tagName) \<Rightarrow> setr = type
      | Inherited \<Rightarrow> False
      | Undefined \<Rightarrow> False)"

definition firstUnknown :: "(string \<times> blocklist) list \<Rightarrow> string option" where
  "firstUnknown bs = List.find (\<lambda>k. js_get blockTypes k = Undefined) (map fst bs)"

fun fits :: "setter \<Rightarrow> blocklist \<Rightarrow> bool" where
  "fits Continuous v = (case nums_of v of Inl e \<Rightarrow> False | Inr xs \<Rightarrow> even (length xs))"
| "fits Propertied v = (case objs_of v of Inl e \<Rightarrow> False | Inr bs \<Rightarrow> True)"
| "fits Singled v = (case nums_of v of Inl e \<Rightarrow> False | Inr xs \<Rightarrow> True)"

definition kindFits :: "string \<times> blocklist \<Rightarrow> bool" where
  "kindFits entry =
     (case js_get blockTypes (fst entry) of
        Own (setr, tagName) \<Rightarrow> fits setr (snd entry)
      | Inherited \<Rightarrow> False
      | Undefined \<Rightarrow> False)"

definition rangeModel :: "model \<Rightarrow> bool" where
  "rangeModel m = list_all kindFits (blocks m)"

text \<open>
  What the three stages of \<open>split\<close> keep true of the pair they build: both are range
  models and their texts are the two halves.
\<close>

definition stageInv :: "string \<Rightarrow> string \<Rightarrow> model \<times> model \<Rightarrow> bool" where
  "stageInv tb ta s = (rangeModel (fst s) \<and> rangeModel (snd s) \<and> text' (fst s) = tb \<and> text' (snd s) = ta)"

text \<open>
  \<open>at k (before, after)\<close>: what the two models of a split hold under the key \<open>k\<close>.
  \<open>optList xs\<close>: what a model holds under a key after
  \<^verbatim>\<open>if (xs.length > 0) { m.blocks[key] = xs; }\<close> on a model without the key.
\<close>

definition at :: "string \<Rightarrow> model \<times> model \<Rightarrow> blocklist option \<times> blocklist option" where
  "at k s = (map_of (blocks (fst s)) k, map_of (blocks (snd s)) k)"

definition optList :: "int list \<Rightarrow> blocklist option" where
  "optList xs = (if xs = [] then None else Some (Nums xs))"

text \<open>The blocks of an object have distinct keys; \<open>split\<close> builds two such objects.\<close>

definition distinctKeys :: "model \<times> model \<Rightarrow> bool" where
  "distinctKeys s = (distinct (map fst (blocks (fst s))) \<and> distinct (map fst (blocks (snd s))))"

text \<open>
  The list \<^verbatim>\<open>concatContinuousBlocks\<close> stores for a kind that both models have, from the
  list \<open>xs\<close> of \<open>before\<close> and the shifted list \<open>merged\<close> of \<open>after\<close>.
\<close>

definition mergeRule :: "int \<Rightarrow> int list \<Rightarrow> int list \<Rightarrow> int list" where
  "mergeRule num xs merged =
     (if xs \<noteq> [] \<and> last xs = num \<and> merged \<noteq> [] \<and> hd merged = num
      then butlast xs @ tl merged else xs @ merged)"

text \<open>\<open>optObjs\<close> is \<open>optList\<close> for a list of propertied ranges.\<close>

definition optObjs :: "pblock list \<Rightarrow> blocklist option" where
  "optObjs bs = (if bs = [] then None else Some (Objs bs))"

text \<open>
  The lists of a well-formed model: no list is empty, and a list under a continuous kind
  has even length and is strictly ascending (no span of zero length, no two spans that
  overlap or touch).
\<close>

definition wellFormedList :: "string \<times> blocklist \<Rightarrow> bool" where
  "wellFormedList entry =
     (case snd entry of
        Nums xs \<Rightarrow> xs \<noteq> [] \<and> (if hasSetter Continuous (fst entry)
                               then even (length xs) \<and> sorted_wrt (<) xs else True)
      | Objs bs \<Rightarrow> bs \<noteq> [])"

definition wellFormed :: "model \<Rightarrow> bool" where
  "wellFormed m = list_all wellFormedList (blocks m)"

section \<open>Picking blocks, loops and the binary search: basic facts\<close>

lemma getBlocksOfType_unknown:
  "firstUnknown bs = Some k \<Longrightarrow> getBlocksOfType bs ty = Inl (UndefinedBlockType k)"
  by (induction bs) (auto simp: firstUnknown_def split: property.splits if_splits)

lemma getBlocksOfType_known:
  "firstUnknown bs = None \<Longrightarrow> getBlocksOfType bs ty = Inr (filter (\<lambda>(k, v). hasSetter ty k) bs)"
  by (induction bs) (auto simp: firstUnknown_def hasSetter_def split: property.splits if_splits)

lemma getBlocksOfType_Inr:
  "getBlocksOfType bs ty = Inr picked \<Longrightarrow> picked = filter (\<lambda>(k, v). hasSetter ty k) bs"
  by (induction bs arbitrary: picked) (auto simp: hasSetter_def split: property.splits if_splits sum.splits)

lemma getBlocksOfType_Inl:
  "getBlocksOfType bs ty = Inl e \<Longrightarrow> \<exists>k. firstUnknown bs = Some k \<and> e = UndefinedBlockType k"
  by (induction bs) (auto simp: firstUnknown_def split: property.splits if_splits sum.splits)

lemma kindFits_known: "list_all kindFits bs \<Longrightarrow> firstUnknown bs = None"
  by (induction bs) (auto simp: firstUnknown_def kindFits_def split: property.splits)

lemma list_all_update:
  "list_all P al \<Longrightarrow> P (k, v) \<Longrightarrow> list_all P (AList.update k v al)"
  by (induction al) auto

lemma each_invariant:
  assumes "P s" and "\<And>s x. P s \<Longrightarrow> x \<in> set xs \<Longrightarrow> \<exists>s'. f s x = Inr s' \<and> P s'"
  shows "\<exists>s'. each f xs s = Inr s' \<and> P s'"
  using assms
proof (induction xs arbitrary: s)
  case Nil
  then show ?case by simp
next
  case (Cons x xs)
  from Cons.prems obtain s1 where s1: "f s x = Inr s1" "P s1" by (meson list.set_intros(1))
  have "\<exists>s'. each f xs s1 = Inr s' \<and> P s'"
    by (rule Cons.IH[OF s1(2)]) (use Cons.prems(2) in auto)
  with s1 show ?case by simp
qed

lemma searchLoop_unfold:
  "low \<le> high \<Longrightarrow> mid = low + (high - low) div 2 \<Longrightarrow>
     searchLoop xs v low high =
       (if xs ! nat mid < v then searchLoop xs v (mid + 1) high
        else if xs ! nat mid > v then searchLoop xs v low (mid - 1)
        else mid)"
  by (subst searchLoop.simps) (simp add: Let_def)

lemma searchLoop_done: "\<not> low \<le> high \<Longrightarrow> searchLoop xs v low high = low"
  by (subst searchLoop.simps) simp

lemma searchLoop_bounds:
  "0 \<le> low \<Longrightarrow> low \<le> high + 1 \<Longrightarrow> high < int (length xs) \<Longrightarrow>
     0 \<le> searchLoop xs v low high \<and> searchLoop xs v low high \<le> int (length xs)"
proof (induction xs v low high rule: searchLoop.induct)
  case (1 list val low high)
  show ?case
  proof (cases "low \<le> high")
    case False
    with "1.prems" show ?thesis by (simp add: searchLoop_done)
  next
    case True
    define mid where "mid = low + (high - low) div 2"
    have mid: "low \<le> mid" "mid \<le> high" using True by (auto simp: mid_def)
    note unf = searchLoop_unfold[OF True mid_def, of list val]
    show ?thesis
    proof (cases "list ! nat mid < val")
      case lt: True
      have "0 \<le> searchLoop list val (mid + 1) high \<and> searchLoop list val (mid + 1) high \<le> int (length list)"
        using "1.IH"(1)[OF True mid_def refl lt] mid "1.prems" by simp
      then show ?thesis using lt by (simp add: unf)
    next
      case nlt: False
      show ?thesis
      proof (cases "list ! nat mid > val")
        case gt: True
        have "0 \<le> searchLoop list val low (mid - 1) \<and> searchLoop list val low (mid - 1) \<le> int (length list)"
          using "1.IH"(2)[OF True mid_def refl nlt gt] mid "1.prems" by simp
        then show ?thesis using nlt gt by (simp add: unf)
      next
        case False
        have "searchLoop list val low high = mid" using nlt False by (simp add: unf)
        then show ?thesis using mid "1.prems" by simp
      qed
    qed
  qed
qed

lemma position_le_length: "getBinarySortedInsertPosition xs v \<le> length xs"
  using searchLoop_bounds[of 0 "int (length xs) - 1" xs v]
  by (simp add: getBinarySortedInsertPosition_def nat_le_iff)


section \<open>Split returns on every range model\<close>

lemma hasSetter_kindFits: "kindFits (k, v) \<Longrightarrow> hasSetter ty k \<Longrightarrow> fits ty v"
  by (auto simp: kindFits_def hasSetter_def split: property.splits)

lemma kindFits_intro: "hasSetter ty k \<Longrightarrow> fits ty v \<Longrightarrow> kindFits (k, v)"
  by (auto simp: kindFits_def hasSetter_def split: property.splits)

lemma rangeModel_setBlocks:
  "rangeModel b \<Longrightarrow> hasSetter ty k \<Longrightarrow> fits ty v \<Longrightarrow> rangeModel (setBlocks b k v)"
  by (simp add: rangeModel_def setBlocks_def list_all_update kindFits_intro)

lemma rangeModel_setBlocksIfAny:
  "rangeModel b \<Longrightarrow> hasSetter ty k \<Longrightarrow> fits ty v \<Longrightarrow> rangeModel (setBlocksIfAny b k v)"
  by (simp add: setBlocksIfAny_def rangeModel_setBlocks)

lemma text_setBlocks [simp]: "text' (setBlocks b k v) = text' b"
  by (simp add: setBlocks_def)

lemma text_setBlocksIfAny [simp]: "text' (setBlocksIfAny b k v) = text' b"
  by (simp add: setBlocksIfAny_def)

lemma picked_member:
  "rangeModel m \<Longrightarrow> x \<in> set (filter (\<lambda>(k, v). hasSetter ty k) (blocks m)) \<Longrightarrow>
     hasSetter ty (fst x) \<and> fits ty (snd x)"
  by (cases x) (auto simp: rangeModel_def list_all_iff dest: hasSetter_kindFits)

lemma rangeModel_picks:
  "rangeModel m \<Longrightarrow> getBlocksOfType (blocks m) ty = Inr (filter (\<lambda>(k, v). hasSetter ty k) (blocks m))"
  by (simp add: rangeModel_def kindFits_known getBlocksOfType_known)

lemma splitContinuousList_even:
  assumes "even (length xs)"
  shows "\<exists>bl al. splitContinuousList xs num = Inr (bl, al) \<and> even (length bl) \<and> even (length al)"
proof -
  define index where "index = getBinarySortedInsertPosition xs num"
  have le: "index \<le> length xs" by (simp add: index_def position_le_length)
  show ?thesis
  proof (cases "index mod 2 = 1")
    case True
    then have odd: "odd index" by presburger
    with le assms have lt: "index < length xs" by (metis le_neq_implies_less)
    from odd have pos: "0 < index" by (cases index) auto
    have "even (length (take (index - 1) xs @ [xs ! (index - 1), num]))"
      using lt odd pos by simp
    moreover have "even (length ([0, xs ! index - num] @ map (\<lambda>value. value - num) (drop (index + 1) xs)))"
      using lt odd assms by simp
    ultimately show ?thesis using True lt
      by (simp add: splitContinuousList_def index_def[symmetric] Let_def)
  next
    case False
    then have ev: "even index" by presburger
    have "even (length (take index xs))" using le ev by simp
    moreover have "even (length (map (\<lambda>value. value - num) (drop index xs)))"
      using le ev assms by simp
    ultimately show ?thesis using False
      by (simp add: splitContinuousList_def index_def[symmetric] Let_def)
  qed
qed

lemma splitPropertiedKind_ok:
  assumes "stageInv tb ta s" "hasSetter Propertied (fst x)" "fits Propertied (snd x)"
  shows "\<exists>s'. splitPropertiedKind num s x = Inr s' \<and> stageInv tb ta s'"
proof -
  from assms(3) obtain bs where bs: "objs_of (snd x) = Inr bs" by (auto split: sum.splits)
  obtain bb ab where f: "foldl (pushPropertied num) ([], []) bs = (bb, ab)"
    by (cases "foldl (pushPropertied num) ([], []) bs")
  show ?thesis using assms(1,2)
    by (simp add: splitPropertiedKind_def bs f stageInv_def rangeModel_setBlocksIfAny)
qed

lemma splitContinuousKind_ok:
  assumes "stageInv tb ta s" "hasSetter Continuous (fst x)" "fits Continuous (snd x)"
  shows "\<exists>s'. splitContinuousKind num s x = Inr s' \<and> stageInv tb ta s'"
proof -
  from assms(3) obtain xs where xs: "nums_of (snd x) = Inr xs" "even (length xs)"
    by (auto split: sum.splits)
  from splitContinuousList_even[OF xs(2), of num] obtain bl al where
    sp: "splitContinuousList xs num = Inr (bl, al)" "even (length bl)" "even (length al)" by blast
  show ?thesis using assms(1,2) sp
    by (simp add: splitContinuousKind_def xs stageInv_def rangeModel_setBlocks)
qed

lemma splitSingledKind_ok:
  assumes "stageInv tb ta s" "hasSetter Singled (fst x)" "fits Singled (snd x)"
  shows "\<exists>s'. splitSingledKind num s x = Inr s' \<and> stageInv tb ta s'"
proof -
  from assms(3) obtain xs where xs: "nums_of (snd x) = Inr xs" by (auto split: sum.splits)
  obtain bb ab where f: "foldl (pushSingled num) ([], []) xs = (bb, ab)"
    by (cases "foldl (pushSingled num) ([], []) xs")
  show ?thesis using assms(1,2)
    by (simp add: splitSingledKind_def xs f stageInv_def rangeModel_setBlocksIfAny)
qed

lemma splitPropertiedBlocks_ok:
  assumes "rangeModel m" "stageInv tb ta (before, after)"
  shows "\<exists>s'. splitPropertiedBlocks m before after num = Inr s' \<and> stageInv tb ta s'"
  unfolding splitPropertiedBlocks_def rangeModel_picks[OF assms(1)] sum.case
  by (rule each_invariant[where P = "stageInv tb ta", OF assms(2)])
     (use picked_member[OF assms(1)] in \<open>blast intro: splitPropertiedKind_ok\<close>)

lemma splitContinuousBlocks_ok:
  assumes "rangeModel m" "stageInv tb ta (before, after)"
  shows "\<exists>s'. splitContinuousBlocks m before after num = Inr s' \<and> stageInv tb ta s'"
  unfolding splitContinuousBlocks_def rangeModel_picks[OF assms(1)] sum.case
  by (rule each_invariant[where P = "stageInv tb ta", OF assms(2)])
     (use picked_member[OF assms(1)] in \<open>blast intro: splitContinuousKind_ok\<close>)

lemma splitSingledBlocks_ok:
  assumes "rangeModel m" "stageInv tb ta (before, after)"
  shows "\<exists>s'. splitSingledBlocks m before after num = Inr s' \<and> stageInv tb ta s'"
  unfolding splitSingledBlocks_def rangeModel_picks[OF assms(1)] sum.case
  by (rule each_invariant[where P = "stageInv tb ta", OF assms(2)])
     (use picked_member[OF assms(1)] in \<open>blast intro: splitSingledKind_ok\<close>)

lemma split_ok:
  assumes "rangeModel m"
  shows "\<exists>b a. split m num = Inr (b, a) \<and> rangeModel b \<and> rangeModel a
           \<and> text' b = substr (text' m) 0 (Some num) \<and> text' a = substr (text' m) num None"
proof -
  let ?tb = "substr (text' m) 0 (Some num)" and ?ta = "substr (text' m) num None"
  let ?b0 = "\<lparr>text' = ?tb, blocks = []\<rparr>" and ?a0 = "\<lparr>text' = ?ta, blocks = []\<rparr>"
  have inv0: "stageInv ?tb ?ta (?b0, ?a0)" by (simp add: stageInv_def rangeModel_def)
  from splitPropertiedBlocks_ok[OF assms inv0, of num] obtain b1 a1 where
    s1: "splitPropertiedBlocks m ?b0 ?a0 num = Inr (b1, a1)" "stageInv ?tb ?ta (b1, a1)" by auto
  from splitContinuousBlocks_ok[OF assms s1(2), of num] obtain b2 a2 where
    s2: "splitContinuousBlocks m b1 a1 num = Inr (b2, a2)" "stageInv ?tb ?ta (b2, a2)" by auto
  from splitSingledBlocks_ok[OF assms s2(2), of num] obtain b3 a3 where
    s3: "splitSingledBlocks m b2 a2 num = Inr (b3, a3)" "stageInv ?tb ?ta (b3, a3)" by auto
  have "split m num = Inr (b3, a3)" by (simp add: split_def Let_def s1 s2 s3)
  with s3(2) show ?thesis by (auto simp: stageInv_def)
qed


section \<open>Concat returns on range models; the text round trip\<close>

lemma mapValues_total:
  "(\<And>x. x \<in> set xs \<Longrightarrow> \<exists>w. f (snd x) = Inr w) \<Longrightarrow> \<exists>ws. mapValues f xs = Inr ws"
proof (induction xs)
  case Nil
  then show ?case by simp
next
  case (Cons x xs)
  obtain k v where x: "x = (k, v)" by (cases x)
  from Cons.prems[of x] x obtain w where w: "f v = Inr w" by auto
  from Cons.IH Cons.prems obtain ws where "mapValues f xs = Inr ws" by auto
  with w x show ?case by simp
qed

lemma each_total:
  "(\<And>s x. x \<in> set xs \<Longrightarrow> \<exists>s'. f s x = Inr s') \<Longrightarrow> \<exists>s'. each f xs s = Inr s'"
  using each_invariant[where P = "\<lambda>s. True" and f = f and xs = xs and s = s] by auto

lemma fits_nums: "fits Continuous v \<or> fits Singled v \<Longrightarrow> \<exists>xs. nums_of v = Inr xs"
  by (auto split: sum.splits)

lemma fits_objs: "fits Propertied v \<Longrightarrow> \<exists>bs. objs_of v = Inr bs"
  by (auto split: sum.splits)

lemma concatPropertiedBlocks_ok:
  assumes "rangeModel before" "rangeModel after"
  shows "\<exists>r. concatPropertiedBlocks before after m = Inr r \<and> text' r = text' m"
proof -
  let ?num = "int (length (text' before))"
  let ?pa = "filter (\<lambda>(k, v). hasSetter Propertied k) (blocks after)"
  let ?pb = "filter (\<lambda>(k, v). hasSetter Propertied k) (blocks before)"
  have "\<exists>ws. mapValues (shiftPropertied ?num) ?pa = Inr ws"
    by (rule mapValues_total)
       (use picked_member[OF assms(2)] fits_objs in \<open>fastforce simp: shiftPropertied_def\<close>)
  then obtain ws where ws: "mapValues (shiftPropertied ?num) ?pa = Inr ws" ..
  have "\<exists>s'. each mergePropertied ?pb ws = Inr s'"
    by (rule each_total)
       (use picked_member[OF assms(1)] fits_objs in \<open>fastforce simp: mergePropertied_def split: option.splits\<close>)
  then obtain s' where s': "each mergePropertied ?pb ws = Inr s'" ..
  show ?thesis
    by (simp add: concatPropertiedBlocks_def Let_def rangeModel_picks[OF assms(1)]
        rangeModel_picks[OF assms(2)] ws s')
qed

lemma concatContinuousBlocks_ok:
  assumes "rangeModel before" "rangeModel after"
  shows "\<exists>r. concatContinuousBlocks before after m = Inr r \<and> text' r = text' m"
proof -
  let ?num = "int (length (text' before))"
  let ?pa = "filter (\<lambda>(k, v). hasSetter Continuous k) (blocks after)"
  let ?pb = "filter (\<lambda>(k, v). hasSetter Continuous k) (blocks before)"
  have "\<exists>ws. mapValues (shiftNumbers ?num) ?pa = Inr ws"
    by (rule mapValues_total)
       (use picked_member[OF assms(2)] fits_nums in \<open>fastforce simp: shiftNumbers_def\<close>)
  then obtain ws where ws: "mapValues (shiftNumbers ?num) ?pa = Inr ws" ..
  have "\<exists>s'. each (mergeContinuous ?num) ?pb ws = Inr s'"
    by (rule each_total)
       (use picked_member[OF assms(1)] fits_nums in \<open>fastforce simp: mergeContinuous_def split: option.splits\<close>)
  then obtain s' where s': "each (mergeContinuous ?num) ?pb ws = Inr s'" ..
  show ?thesis
    by (simp add: concatContinuousBlocks_def Let_def rangeModel_picks[OF assms(1)]
        rangeModel_picks[OF assms(2)] ws s')
qed

lemma concatSingledBlocks_ok:
  assumes "rangeModel before" "rangeModel after"
  shows "\<exists>r. concatSingledBlocks before after m = Inr r \<and> text' r = text' m"
proof -
  let ?num = "int (length (text' before))"
  let ?pa = "filter (\<lambda>(k, v). hasSetter Singled k) (blocks after)"
  let ?pb = "filter (\<lambda>(k, v). hasSetter Singled k) (blocks before)"
  have "\<exists>ws. mapValues (shiftNumbers ?num) ?pa = Inr ws"
    by (rule mapValues_total)
       (use picked_member[OF assms(2)] fits_nums in \<open>fastforce simp: shiftNumbers_def\<close>)
  then obtain ws where ws: "mapValues (shiftNumbers ?num) ?pa = Inr ws" ..
  have "\<exists>s'. each mergeSingled ?pb ws = Inr s'"
    by (rule each_total)
       (use picked_member[OF assms(1)] fits_nums in \<open>fastforce simp: mergeSingled_def split: option.splits\<close>)
  then obtain s' where s': "each mergeSingled ?pb ws = Inr s'" ..
  show ?thesis
    by (simp add: concatSingledBlocks_def Let_def rangeModel_picks[OF assms(1)]
        rangeModel_picks[OF assms(2)] ws s')
qed

lemma concat_ok:
  assumes "rangeModel before" "rangeModel after"
  shows "\<exists>r. concat_models before after = Inr r \<and> text' r = text' before @ text' after"
proof -
  let ?m0 = "\<lparr>text' = text' before @ text' after, blocks = []\<rparr>"
  from concatPropertiedBlocks_ok[OF assms, of ?m0] obtain m1 where
    m1: "concatPropertiedBlocks before after ?m0 = Inr m1" "text' m1 = text' before @ text' after" by auto
  from concatContinuousBlocks_ok[OF assms, of m1] m1 obtain m2 where
    m2: "concatContinuousBlocks before after m1 = Inr m2" "text' m2 = text' before @ text' after" by auto
  from concatSingledBlocks_ok[OF assms, of m2] m2 obtain m3 where
    m3: "concatSingledBlocks before after m2 = Inr m3" "text' m3 = text' before @ text' after" by auto
  show ?thesis by (simp add: concat_models_def Let_def m1 m2 m3)
qed

lemma substr_halves:
  "0 \<le> k \<Longrightarrow> k \<le> int (length t) \<Longrightarrow> substr t 0 (Some k) @ substr t k None = t"
  by (simp add: substr_def Let_def min_def max_def)

text \<open>
  Claim C2. For a range model \<open>m\<close> and an offset \<open>k\<close> with \<open>0 \<le> k \<le> text.length\<close>,
  \<open>split m k\<close> returns two models, \<open>concat\<close> of the two returns a model, and the text of
  that model is the text of \<open>m\<close>.
\<close>

theorem split_concat_text:
  assumes "rangeModel m" "0 \<le> k" "k \<le> int (length (text' m))"
  shows "\<exists>b a r. split m k = Inr (b, a) \<and> concat_models b a = Inr r \<and> text' r = text' m"
proof -
  from split_ok[OF assms(1), of k] obtain b a where
    sp: "split m k = Inr (b, a)" "rangeModel b" "rangeModel a"
        "text' b = substr (text' m) 0 (Some k)" "text' a = substr (text' m) k None" by blast
  from concat_ok[OF sp(2,3)] obtain r where
    r: "concat_models b a = Inr r" "text' r = text' b @ text' a" by blast
  from r(2) sp(4,5) substr_halves[OF assms(2,3)] have "text' r = text' m" by simp
  with sp(1) r(1) show ?thesis by blast
qed


theorem split_concat_text_witness:
  "rangeModel \<lparr>text' = ''abcdef'',
               blocks = [(''strong'', Nums [0, 6]),
                         (''link'', Objs [\<lparr>start = 2, end' = 5, attributes = [(''href'', ''x'')]\<rparr>]),
                         (''soft return'', Nums [3])]\<rparr>
   \<and> (0::int) \<le> 3
   \<and> 3 \<le> int (length ''abcdef'')
   \<and> (\<exists>b a r. split \<lparr>text' = ''abcdef'',
                        blocks = [(''strong'', Nums [0, 6]),
                                  (''link'', Objs [\<lparr>start = 2, end' = 5, attributes = [(''href'', ''x'')]\<rparr>]),
                                  (''soft return'', Nums [3])]\<rparr> 3 = Inr (b, a)
        \<and> concat_models b a = Inr r \<and> text' r = ''abcdef'')"
proof -
  let ?m = "\<lparr>text' = ''abcdef'',
             blocks = [(''strong'', Nums [0, 6]),
                       (''link'', Objs [\<lparr>start = 2, end' = 5, attributes = [(''href'', ''x'')]\<rparr>]),
                       (''soft return'', Nums [3])]\<rparr>"
  have h1: "rangeModel ?m" by code_simp
  have h2: "(0::int) \<le> 3" by simp
  have h3: "3 \<le> int (length (text' ?m))" by simp
  from split_concat_text[OF h1 h2 h3] h1 show ?thesis by simp
qed

section \<open>What split stores under a key\<close>

lemma each_keeps:
  assumes "each f xs s = Inr s'"
    and "\<And>s x s'. x \<in> set xs \<Longrightarrow> f s x = Inr s' \<Longrightarrow> L s' = L s"
  shows "L s' = L s"
  using assms
proof (induction xs arbitrary: s)
  case Nil
  then show ?case by simp
next
  case (Cons x xs)
  from Cons.prems(1) obtain s1 where s1: "f s x = Inr s1" "each f xs s1 = Inr s'"
    by (auto split: sum.splits)
  have "L s' = L s1" by (rule Cons.IH[OF s1(2)]) (use Cons.prems(2) in auto)
  moreover have "L s1 = L s" using Cons.prems(2)[OF _ s1(1)] by simp
  ultimately show ?case by simp
qed

lemma each_at:
  assumes "each f xs s = Inr s'" "distinct (map fst xs)" "(k, v) \<in> set xs" "L s = L0"
    and other: "\<And>s x s'. x \<in> set xs \<Longrightarrow> fst x \<noteq> k \<Longrightarrow> f s x = Inr s' \<Longrightarrow> L s' = L s"
    and here: "\<And>s s'. L s = L0 \<Longrightarrow> f s (k, v) = Inr s' \<Longrightarrow> L s' = R"
  shows "L s' = R"
  using assms(1-4) other
proof (induction xs arbitrary: s)
  case Nil
  then show ?case by simp
next
  case (Cons x xs)
  from Cons.prems(1) obtain s1 where s1: "f s x = Inr s1" "each f xs s1 = Inr s'"
    by (auto split: sum.splits)
  show ?case
  proof (cases "x = (k, v)")
    case True
    with s1(1) Cons.prems(4) have "L s1 = R" using here by simp
    moreover have "L s' = L s1"
    proof (rule each_keeps[OF s1(2)])
      fix t y t' assume y: "y \<in> set xs" and st: "f t y = Inr t'"
      from y Cons.prems(2) True have "fst y \<noteq> k" by force
      with Cons.prems(5)[of y t t'] y st show "L t' = L t" by simp
    qed
    ultimately show ?thesis by simp
  next
    case False
    with Cons.prems(3) have mem: "(k, v) \<in> set xs" by auto
    then have "k \<in> fst ` set xs" by force
    with Cons.prems(2) have kx: "fst x \<noteq> k" by auto
    from Cons.prems(5)[of x s s1] kx s1(1) Cons.prems(4) have "L s1 = L0" by simp
    show ?thesis
      by (rule Cons.IH[OF s1(2) _ mem \<open>L s1 = L0\<close>]) (use Cons.prems(2,5) in auto)
  qed
qed

lemma map_of_setBlocks:
  "map_of (blocks (setBlocks m k' v)) k = (if k = k' then Some v else map_of (blocks m) k)"
  by (simp add: setBlocks_def update_conv')

lemma map_of_setBlocksIfAny:
  "map_of (blocks (setBlocksIfAny m k' v)) k =
     (if k = k' \<and> v \<noteq> Nums [] \<and> v \<noteq> Objs [] then Some v else map_of (blocks m) k)"
  by (simp add: setBlocksIfAny_def map_of_setBlocks)

lemma splitKind_other:
  assumes "fst x \<noteq> k"
  shows "splitPropertiedKind num s x = Inr s' \<Longrightarrow> at k s' = at k s"
    and "splitContinuousKind num s x = Inr s' \<Longrightarrow> at k s' = at k s"
    and "splitSingledKind num s x = Inr s' \<Longrightarrow> at k s' = at k s"
  using assms
  by (auto simp: splitPropertiedKind_def splitContinuousKind_def splitSingledKind_def at_def
      map_of_setBlocks map_of_setBlocksIfAny split: sum.splits prod.splits)

lemma hasSetter_unique: "hasSetter ty k \<Longrightarrow> hasSetter ty' k \<Longrightarrow> ty = ty'"
  by (auto simp: hasSetter_def split: property.splits)

lemma picked_keys:
  "getBlocksOfType bs ty = Inr picked \<Longrightarrow> x \<in> set picked \<Longrightarrow> hasSetter ty (fst x) \<and> x \<in> set bs"
  by (drule getBlocksOfType_Inr) auto

lemma picked_distinct:
  "getBlocksOfType bs ty = Inr picked \<Longrightarrow> distinct (map fst bs) \<Longrightarrow> distinct (map fst picked)"
  by (drule getBlocksOfType_Inr) (simp add: distinct_map_filter)

lemma picked_has:
  "getBlocksOfType bs ty = Inr picked \<Longrightarrow> (k, v) \<in> set bs \<Longrightarrow> hasSetter ty k \<Longrightarrow> (k, v) \<in> set picked"
  by (drule getBlocksOfType_Inr) auto

text \<open>A stage of split leaves the lists of the other kinds as they are.\<close>

lemma splitPropertiedBlocks_other:
  assumes "splitPropertiedBlocks m before after num = Inr s'" "hasSetter ty k" "ty \<noteq> Propertied"
  shows "at k s' = at k (before, after)"
proof -
  from assms(1) obtain picked where p: "getBlocksOfType (blocks m) Propertied = Inr picked"
    and e: "each (splitPropertiedKind num) picked (before, after) = Inr s'"
    by (auto simp: splitPropertiedBlocks_def split: sum.splits)
  show ?thesis
  proof (rule each_keeps[OF e])
    fix s x t assume "x \<in> set picked" "splitPropertiedKind num s x = Inr t"
    moreover from this picked_keys[OF p] assms(2,3) have "fst x \<noteq> k" using hasSetter_unique by blast
    ultimately show "at k t = at k s" by (simp add: splitKind_other)
  qed
qed

lemma splitContinuousBlocks_other:
  assumes "splitContinuousBlocks m before after num = Inr s'" "hasSetter ty k" "ty \<noteq> Continuous"
  shows "at k s' = at k (before, after)"
proof -
  from assms(1) obtain picked where p: "getBlocksOfType (blocks m) Continuous = Inr picked"
    and e: "each (splitContinuousKind num) picked (before, after) = Inr s'"
    by (auto simp: splitContinuousBlocks_def split: sum.splits)
  show ?thesis
  proof (rule each_keeps[OF e])
    fix s x t assume "x \<in> set picked" "splitContinuousKind num s x = Inr t"
    moreover from this picked_keys[OF p] assms(2,3) have "fst x \<noteq> k" using hasSetter_unique by blast
    ultimately show "at k t = at k s" by (simp add: splitKind_other)
  qed
qed

lemma splitSingledBlocks_other:
  assumes "splitSingledBlocks m before after num = Inr s'" "hasSetter ty k" "ty \<noteq> Singled"
  shows "at k s' = at k (before, after)"
proof -
  from assms(1) obtain picked where p: "getBlocksOfType (blocks m) Singled = Inr picked"
    and e: "each (splitSingledKind num) picked (before, after) = Inr s'"
    by (auto simp: splitSingledBlocks_def split: sum.splits)
  show ?thesis
  proof (rule each_keeps[OF e])
    fix s x t assume "x \<in> set picked" "splitSingledKind num s x = Inr t"
    moreover from this picked_keys[OF p] assms(2,3) have "fst x \<noteq> k" using hasSetter_unique by blast
    ultimately show "at k t = at k s" by (simp add: splitKind_other)
  qed
qed

lemma foldl_pushSingled:
  "foldl (pushSingled num) (bs, as) ps =
     (bs @ filter (\<lambda>pos. pos < num) ps, as @ map (\<lambda>pos. pos - num) (filter (\<lambda>pos. pos > num) ps))"
  by (induction ps arbitrary: bs as) (auto simp: pushSingled_def)

lemma splitSingledBlocks_at:
  assumes "splitSingledBlocks m before after num = Inr s'" "hasSetter Singled k"
    "distinct (map fst (blocks m))" "(k, v) \<in> set (blocks m)" "nums_of v = Inr ps"
    "at k (before, after) = (None, None)"
  shows "at k s' = (optList (filter (\<lambda>pos. pos < num) ps),
                    optList (map (\<lambda>pos. pos - num) (filter (\<lambda>pos. pos > num) ps)))"
proof -
  from assms(1) obtain picked where p: "getBlocksOfType (blocks m) Singled = Inr picked"
    and e: "each (splitSingledKind num) picked (before, after) = Inr s'"
    by (auto simp: splitSingledBlocks_def split: sum.splits)
  show ?thesis
  proof (rule each_at[where L = "at k" and ?L0.0 = "(None, None)",
        OF e picked_distinct[OF p assms(3)] picked_has[OF p assms(4,2)] assms(6)])
    fix s x t assume "x \<in> set picked" "fst x \<noteq> k" "splitSingledKind num s x = Inr t"
    then show "at k t = at k s" by (simp add: splitKind_other)
  next
    fix s t assume "at k s = (None, None)" "splitSingledKind num s (k, v) = Inr t"
    then show "at k t = (optList (filter (\<lambda>pos. pos < num) ps),
                    optList (map (\<lambda>pos. pos - num) (filter (\<lambda>pos. pos > num) ps)))"
      using assms(5)
      by (auto simp: splitSingledKind_def foldl_pushSingled at_def map_of_setBlocksIfAny optList_def)
  qed
qed

lemma split_stages:
  assumes "split m num = Inr (b, a)"
  obtains b1 a1 b2 a2 where
    "splitPropertiedBlocks m \<lparr>text' = substr (text' m) 0 (Some num), blocks = []\<rparr>
        \<lparr>text' = substr (text' m) num None, blocks = []\<rparr> num = Inr (b1, a1)"
    "splitContinuousBlocks m b1 a1 num = Inr (b2, a2)"
    "splitSingledBlocks m b2 a2 num = Inr (b, a)"
  using assms by (auto simp: split_def Let_def split: sum.splits)

lemma split_singled:
  assumes "split m num = Inr (b, a)" "hasSetter Singled k"
    "distinct (map fst (blocks m))" "map_of (blocks m) k = Some v" "nums_of v = Inr ps"
  shows "map_of (blocks b) k = optList (filter (\<lambda>pos. pos < num) ps)"
    and "map_of (blocks a) k = optList (map (\<lambda>pos. pos - num) (filter (\<lambda>pos. pos > num) ps))"
proof -
  from assms(1) obtain b1 a1 b2 a2 where
    s1: "splitPropertiedBlocks m \<lparr>text' = substr (text' m) 0 (Some num), blocks = []\<rparr>
        \<lparr>text' = substr (text' m) num None, blocks = []\<rparr> num = Inr (b1, a1)"
    and s2: "splitContinuousBlocks m b1 a1 num = Inr (b2, a2)"
    and s3: "splitSingledBlocks m b2 a2 num = Inr (b, a)"
    by (rule split_stages)
  have "at k (b1, a1) = (None, None)"
    using splitPropertiedBlocks_other[OF s1 assms(2)] by (simp add: at_def)
  then have "at k (b2, a2) = (None, None)"
    using splitContinuousBlocks_other[OF s2 assms(2)] by simp
  from splitSingledBlocks_at[OF s3 assms(2,3) map_of_SomeD[OF assms(4)] assms(5) this]
  show "map_of (blocks b) k = optList (filter (\<lambda>pos. pos < num) ps)"
    and "map_of (blocks a) k = optList (map (\<lambda>pos. pos - num) (filter (\<lambda>pos. pos > num) ps))"
    by (simp_all add: at_def)
qed


section \<open>Singled marks under split; offsets outside the text\<close>

text \<open>
  Claim C8. For a range model with distinct keys, a singled kind and any offset, split
  returns; under the kind, \<open>before\<close> holds exactly the marks less than the offset,
  unchanged and in their order, \<open>after\<close> holds exactly the marks greater than the offset,
  each decreased by the offset, and a mark equal to the offset is in neither (a model
  left with no mark does not have the key).
\<close>

theorem split_singled_marks:
  assumes "rangeModel m" "distinct (map fst (blocks m))" "hasSetter Singled kind"
    "map_of (blocks m) kind = Some (Nums marks)"
  shows "\<exists>b a. split m num = Inr (b, a)
           \<and> map_of (blocks b) kind = optList (filter (\<lambda>pos. pos < num) marks)
           \<and> map_of (blocks a) kind = optList (map (\<lambda>pos. pos - num) (filter (\<lambda>pos. pos > num) marks))"
proof -
  from split_ok[OF assms(1), of num] obtain b a where sp: "split m num = Inr (b, a)" by blast
  have "nums_of (Nums marks) = Inr marks" by simp
  from split_singled[OF sp assms(3,2,4) this] sp show ?thesis by blast
qed

theorem split_singled_marks_witness:
  "rangeModel \<lparr>text' = ''abcdef'', blocks = [(''soft return'', Nums [1, 3, 5])]\<rparr>
   \<and> distinct (map fst [(''soft return'', Nums [1, 3, 5])])
   \<and> hasSetter Singled ''soft return''
   \<and> map_of [(''soft return'', Nums [1, 3, 5])] ''soft return'' = Some (Nums [1, 3, 5])
   \<and> (\<exists>b a. split \<lparr>text' = ''abcdef'', blocks = [(''soft return'', Nums [1, 3, 5])]\<rparr> 3 = Inr (b, a)
        \<and> map_of (blocks b) ''soft return'' = Some (Nums [1])
        \<and> map_of (blocks a) ''soft return'' = Some (Nums [2]))"
proof -
  let ?m = "\<lparr>text' = ''abcdef'', blocks = [(''soft return'', Nums [1, 3, 5])]\<rparr>"
  have h1: "rangeModel ?m" by code_simp
  have h2: "distinct (map fst (blocks ?m))" by simp
  have h3: "hasSetter Singled ''soft return''" by code_simp
  have h4: "map_of (blocks ?m) ''soft return'' = Some (Nums [1, 3, 5])" by simp
  from split_singled_marks[OF h1 h2 h3 h4, of 3] h1 h3 show ?thesis
    by (simp add: optList_def)
qed

lemma substr_outside:
  "int (length t) < k \<Longrightarrow> substr t 0 (Some k) = t \<and> substr t k None = []"
  "k < 0 \<Longrightarrow> substr t 0 (Some k) = [] \<and> substr t k None = drop (nat (int (length t) + k)) t"
  by (auto simp: substr_def Let_def min_def max_def)

text \<open>
  Claim C9, the counterexample: an offset greater than the length of the text is no
  error; split returns the whole text before and the empty text after.
\<close>

theorem split_outside_counterexample:
  "int (length ''abc'') < 5 \<and>
   split \<lparr>text' = ''abc'', blocks = []\<rparr> 5 =
     Inr (\<lparr>text' = ''abc'', blocks = []\<rparr>, \<lparr>text' = [], blocks = []\<rparr>)"
  by code_simp

text \<open>
  Claim C9, as amended. The source has no check of the offset. On a range model, split
  with an offset outside \<open>[0, text.length]\<close> returns two models: beyond the end, \<open>before\<close>
  has the whole text and \<open>after\<close> the empty text; below 0, \<open>before\<close> has the empty text
  and \<open>after\<close> the last \<open>-offset\<close> code units (the whole text when there are fewer), as
  \<^verbatim>\<open>substr\<close> gives them.
\<close>

theorem split_outside_returns:
  assumes "rangeModel m" "num < 0 \<or> int (length (text' m)) < num"
  shows "\<exists>b a. split m num = Inr (b, a)
           \<and> text' b = (if num < 0 then [] else text' m)
           \<and> text' a = (if num < 0 then drop (nat (int (length (text' m)) + num)) (text' m) else [])"
proof -
  from split_ok[OF assms(1), of num] obtain b a where
    sp: "split m num = Inr (b, a)" "text' b = substr (text' m) 0 (Some num)"
        "text' a = substr (text' m) num None" by blast
  show ?thesis
  proof (cases "num < 0")
    case True
    with sp substr_outside(2)[OF True, of "text' m"] show ?thesis by auto
  next
    case False
    with assms(2) have "int (length (text' m)) < num" by simp
    with sp substr_outside(1)[OF this] False show ?thesis by auto
  qed
qed

theorem split_outside_returns_witness:
  "rangeModel \<lparr>text' = ''abc'', blocks = [(''strong'', Nums [0, 2])]\<rparr>
   \<and> (-2) < (0::int)
   \<and> (\<exists>b a. split \<lparr>text' = ''abc'', blocks = [(''strong'', Nums [0, 2])]\<rparr> (-2) = Inr (b, a)
        \<and> text' b = [] \<and> text' a = ''bc'')"
proof -
  let ?m = "\<lparr>text' = ''abc'', blocks = [(''strong'', Nums [0, 2])]\<rparr>"
  have h1: "rangeModel ?m" by code_simp
  have h2: "(-2) < (0::int) \<or> int (length (text' ?m)) < -2" by simp
  from split_outside_returns[OF h1 h2] h1 show ?thesis by simp
qed


section \<open>The binary search on a strictly ascending list\<close>

lemma searchLoop_sorted:
  "sorted_wrt (<) xs \<Longrightarrow> 0 \<le> low \<Longrightarrow> low \<le> high + 1 \<Longrightarrow> high < int (length xs) \<Longrightarrow>
     (\<forall>i. i < nat low \<longrightarrow> xs ! i < v) \<Longrightarrow>
     (\<forall>i. nat (high + 1) \<le> i \<and> i < length xs \<longrightarrow> v < xs ! i) \<Longrightarrow>
     (\<forall>i. i < nat (searchLoop xs v low high) \<longrightarrow> xs ! i < v) \<and>
     (\<forall>i. nat (searchLoop xs v low high) \<le> i \<and> i < length xs \<longrightarrow> v \<le> xs ! i)"
proof (induction xs v low high rule: searchLoop.induct)
  case (1 list val low high)
  note srt = sorted_wrt_nth_less[OF "1.prems"(1)]
  show ?case
  proof (cases "low \<le> high")
    case False
    with "1.prems" have "high + 1 = low" by simp
    with "1.prems" False show ?thesis by (auto simp: searchLoop_done less_imp_le)
  next
    case True
    define mid where "mid = low + (high - low) div 2"
    have mid: "low \<le> mid" "mid \<le> high" using True by (auto simp: mid_def)
    then have midn: "nat mid < length list" using "1.prems" by auto
    note unf = searchLoop_unfold[OF True mid_def, of list val]
    show ?thesis
    proof (cases "list ! nat mid < val")
      case lt: True
      have below: "\<forall>i. i < nat (mid + 1) \<longrightarrow> list ! i < val"
      proof (intro allI impI)
        fix i assume "i < nat (mid + 1)"
        then have "i \<le> nat mid" using mid "1.prems" by auto
        then have "list ! i \<le> list ! nat mid"
          using srt[of i "nat mid"] midn by (cases "i = nat mid") auto
        with lt show "list ! i < val" by simp
      qed
      have "(\<forall>i. i < nat (searchLoop list val (mid + 1) high) \<longrightarrow> list ! i < val) \<and>
            (\<forall>i. nat (searchLoop list val (mid + 1) high) \<le> i \<and> i < length list \<longrightarrow> val \<le> list ! i)"
        using "1.IH"(1)[OF True mid_def refl lt "1.prems"(1)] mid "1.prems" below by simp
      then show ?thesis using lt by (simp add: unf)
    next
      case nlt: False
      show ?thesis
      proof (cases "list ! nat mid > val")
        case gt: True
        have above: "\<forall>i. nat (mid - 1 + 1) \<le> i \<and> i < length list \<longrightarrow> val < list ! i"
        proof (intro allI impI)
          fix i assume "nat (mid - 1 + 1) \<le> i \<and> i < length list"
          then have "nat mid \<le> i" "i < length list" by auto
          then have "list ! nat mid \<le> list ! i"
            using srt[of "nat mid" i] by (cases "i = nat mid") auto
          with gt show "val < list ! i" by simp
        qed
        have "(\<forall>i. i < nat (searchLoop list val low (mid - 1)) \<longrightarrow> list ! i < val) \<and>
              (\<forall>i. nat (searchLoop list val low (mid - 1)) \<le> i \<and> i < length list \<longrightarrow> val \<le> list ! i)"
          using "1.IH"(2)[OF True mid_def refl nlt gt "1.prems"(1)] mid "1.prems" above by simp
        then show ?thesis using nlt gt by (simp add: unf)
      next
        case False
        with nlt have eq: "list ! nat mid = val" by simp
        have r: "searchLoop list val low high = mid" using nlt False by (simp add: unf)
        have "\<forall>i. i < nat mid \<longrightarrow> list ! i < val"
          using srt[of _ "nat mid"] midn eq by auto
        moreover have "\<forall>i. nat mid \<le> i \<and> i < length list \<longrightarrow> val \<le> list ! i"
        proof (intro allI impI)
          fix i assume "nat mid \<le> i \<and> i < length list"
          then show "val \<le> list ! i" using srt[of "nat mid" i] eq by (cases "i = nat mid") auto
        qed
        ultimately show ?thesis by (simp add: r)
      qed
    qed
  qed
qed

lemma position_sorted:
  assumes "sorted_wrt (<) xs"
  shows "(\<forall>i. i < getBinarySortedInsertPosition xs v \<longrightarrow> xs ! i < v) \<and>
         (\<forall>i. getBinarySortedInsertPosition xs v \<le> i \<and> i < length xs \<longrightarrow> v \<le> xs ! i)"
  using searchLoop_sorted[OF assms, of 0 "int (length xs) - 1" v]
  by (simp add: getBinarySortedInsertPosition_def)

lemma position_between:
  assumes "sorted_wrt (<) xs" "Suc j < length xs" "xs ! j < v" "v < xs ! Suc j"
  shows "getBinarySortedInsertPosition xs v = Suc j"
proof -
  let ?r = "getBinarySortedInsertPosition xs v"
  from position_sorted[OF assms(1), of v] have
    lo: "\<And>i. i < ?r \<Longrightarrow> xs ! i < v" and hi: "\<And>i. ?r \<le> i \<Longrightarrow> i < length xs \<Longrightarrow> v \<le> xs ! i"
    by auto
  have "\<not> ?r \<le> j" using hi[of j] assms(2,3) by auto
  moreover have "\<not> Suc j < ?r" using lo[of "Suc j"] assms(4) by auto
  ultimately show ?thesis by simp
qed

lemma take_two_drop:
  "Suc j < length xs \<Longrightarrow> take j xs @ [xs ! j, xs ! Suc j] @ drop (Suc (Suc j)) xs = xs"
  by (metis Cons_nth_drop_Suc Suc_lessD append_Cons append_Nil append_take_drop_id)

lemma splitContinuousList_inside:
  assumes "sorted_wrt (<) xs" "Suc (2 * i) < length xs" "xs ! (2 * i) < k" "k < xs ! Suc (2 * i)"
  shows "splitContinuousList xs k =
     Inr (take (2 * i) xs @ [xs ! (2 * i), k],
          [0, xs ! Suc (2 * i) - k] @ map (\<lambda>value. value - k) (drop (Suc (Suc (2 * i))) xs))"
  using position_between[OF assms] assms(2)
  by (simp add: splitContinuousList_def Let_def)


section \<open>What split stores under a continuous key\<close>

lemma each_pred:
  assumes "each f xs s = Inr s'" "P s"
    and "\<And>s x s'. x \<in> set xs \<Longrightarrow> P s \<Longrightarrow> f s x = Inr s' \<Longrightarrow> P s'"
  shows "P s'"
  using assms
proof (induction xs arbitrary: s)
  case Nil
  then show ?case by simp
next
  case (Cons x xs)
  from Cons.prems(1) obtain s1 where s1: "f s x = Inr s1" "each f xs s1 = Inr s'"
    by (auto split: sum.splits)
  have "P s1" using Cons.prems(3)[OF _ Cons.prems(2) s1(1)] by simp
  show ?case by (rule Cons.IH[OF s1(2) \<open>P s1\<close>]) (use Cons.prems(3) in auto)
qed

lemma distinct_setBlocks:
  "distinct (map fst (blocks m)) \<Longrightarrow> distinct (map fst (blocks (setBlocks m k v)))"
  "distinct (map fst (blocks m)) \<Longrightarrow> distinct (map fst (blocks (setBlocksIfAny m k v)))"
  by (simp_all add: setBlocks_def setBlocksIfAny_def distinct_update)

lemma splitKind_distinct:
  assumes "distinctKeys s"
  shows "splitPropertiedKind num s x = Inr s' \<Longrightarrow> distinctKeys s'"
    and "splitContinuousKind num s x = Inr s' \<Longrightarrow> distinctKeys s'"
    and "splitSingledKind num s x = Inr s' \<Longrightarrow> distinctKeys s'"
  using assms
  by (auto simp: splitPropertiedKind_def splitContinuousKind_def splitSingledKind_def distinctKeys_def
      distinct_setBlocks split: sum.splits prod.splits)

lemma split_distinct:
  assumes "split m num = Inr (b, a)"
  shows "distinct (map fst (blocks b)) \<and> distinct (map fst (blocks a))"
proof -
  from assms obtain b1 a1 b2 a2 where
    s1: "splitPropertiedBlocks m \<lparr>text' = substr (text' m) 0 (Some num), blocks = []\<rparr>
        \<lparr>text' = substr (text' m) num None, blocks = []\<rparr> num = Inr (b1, a1)"
    and s2: "splitContinuousBlocks m b1 a1 num = Inr (b2, a2)"
    and s3: "splitSingledBlocks m b2 a2 num = Inr (b, a)"
    by (rule split_stages)
  have d0: "distinctKeys (\<lparr>text' = substr (text' m) 0 (Some num), blocks = []\<rparr>,
        \<lparr>text' = substr (text' m) num None, blocks = []\<rparr>)"
    by (simp add: distinctKeys_def)
  from s1 obtain p1 where "each (splitPropertiedKind num) p1
        (\<lparr>text' = substr (text' m) 0 (Some num), blocks = []\<rparr>,
         \<lparr>text' = substr (text' m) num None, blocks = []\<rparr>) = Inr (b1, a1)"
    by (auto simp: splitPropertiedBlocks_def split: sum.splits)
  then have d1: "distinctKeys (b1, a1)"
    by (rule each_pred[where P = distinctKeys, OF _ d0]) (rule splitKind_distinct)
  from s2 obtain p2 where "each (splitContinuousKind num) p2 (b1, a1) = Inr (b2, a2)"
    by (auto simp: splitContinuousBlocks_def split: sum.splits)
  then have d2: "distinctKeys (b2, a2)"
    by (rule each_pred[where P = distinctKeys, OF _ d1]) (rule splitKind_distinct)
  from s3 obtain p3 where "each (splitSingledKind num) p3 (b2, a2) = Inr (b, a)"
    by (auto simp: splitSingledBlocks_def split: sum.splits)
  then have "distinctKeys (b, a)"
    by (rule each_pred[where P = distinctKeys, OF _ d2]) (rule splitKind_distinct)
  then show ?thesis by (simp add: distinctKeys_def)
qed

lemma splitContinuousBlocks_at:
  assumes "splitContinuousBlocks m before after num = Inr s'" "hasSetter Continuous k"
    "distinct (map fst (blocks m))" "(k, v) \<in> set (blocks m)" "nums_of v = Inr xs"
    "splitContinuousList xs num = Inr (bl, al)"
  shows "at k s' = (Some (Nums bl), Some (Nums al))"
proof -
  from assms(1) obtain picked where p: "getBlocksOfType (blocks m) Continuous = Inr picked"
    and e: "each (splitContinuousKind num) picked (before, after) = Inr s'"
    by (auto simp: splitContinuousBlocks_def split: sum.splits)
  show ?thesis
  proof (rule each_at[where L = "at k" and ?L0.0 = "at k (before, after)",
        OF e picked_distinct[OF p assms(3)] picked_has[OF p assms(4,2)] refl])
    fix s x t assume "x \<in> set picked" "fst x \<noteq> k" "splitContinuousKind num s x = Inr t"
    then show "at k t = at k s" by (simp add: splitKind_other)
  next
    fix s t assume "splitContinuousKind num s (k, v) = Inr t"
    then show "at k t = (Some (Nums bl), Some (Nums al))"
      using assms(5,6) by (auto simp: splitContinuousKind_def at_def map_of_setBlocks)
  qed
qed

lemma split_continuous:
  assumes "split m num = Inr (b, a)" "hasSetter Continuous k"
    "distinct (map fst (blocks m))" "map_of (blocks m) k = Some v" "nums_of v = Inr xs"
    "splitContinuousList xs num = Inr (bl, al)"
  shows "map_of (blocks b) k = Some (Nums bl)" and "map_of (blocks a) k = Some (Nums al)"
proof -
  from assms(1) obtain b1 a1 b2 a2 where
    s1: "splitPropertiedBlocks m \<lparr>text' = substr (text' m) 0 (Some num), blocks = []\<rparr>
        \<lparr>text' = substr (text' m) num None, blocks = []\<rparr> num = Inr (b1, a1)"
    and s2: "splitContinuousBlocks m b1 a1 num = Inr (b2, a2)"
    and s3: "splitSingledBlocks m b2 a2 num = Inr (b, a)"
    by (rule split_stages)
  from splitContinuousBlocks_at[OF s2 assms(2,3) map_of_SomeD[OF assms(4)] assms(5,6)]
  have "at k (b2, a2) = (Some (Nums bl), Some (Nums al))" .
  with splitSingledBlocks_other[OF s3 assms(2)]
  show "map_of (blocks b) k = Some (Nums bl)" and "map_of (blocks a) k = Some (Nums al)"
    by (simp_all add: at_def)
qed


section \<open>What concat stores under a continuous key\<close>

lemma mapValues_keys: "mapValues f xs = Inr ws \<Longrightarrow> map fst ws = map fst xs"
  by (induction xs arbitrary: ws) (auto split: sum.splits)

lemma mapValues_at:
  "mapValues f xs = Inr ws \<Longrightarrow> map_of xs k = Some v \<Longrightarrow> \<exists>w. f v = Inr w \<and> map_of ws k = Some w"
  by (induction xs arbitrary: ws) (auto split: sum.splits if_splits)

lemma assign_Cons: "assign obj ((k, v) # src) = assign (AList.update k v obj) src"
  by (simp add: assign_def)

lemma assign_Nil [simp]: "assign obj [] = obj"
  by (simp add: assign_def)

lemma assign_other: "k \<notin> fst ` set src \<Longrightarrow> map_of (assign obj src) k = map_of obj k"
proof (induction src arbitrary: obj)
  case Nil
  then show ?case by simp
next
  case (Cons x src)
  obtain k' v' where x: "x = (k', v')" by (cases x)
  with Cons show ?case by (simp add: assign_Cons update_conv')
qed

lemma assign_at:
  "distinct (map fst src) \<Longrightarrow> map_of src k = Some v \<Longrightarrow> map_of (assign obj src) k = Some v"
proof (induction src arbitrary: obj)
  case Nil
  then show ?case by simp
next
  case (Cons x src)
  obtain k' v' where x: "x = (k', v')" by (cases x)
  show ?case
  proof (cases "k' = k")
    case True
    with Cons.prems x have "v' = v" "k \<notin> fst ` set src" by auto
    then show ?thesis using x True by (simp add: assign_Cons assign_other update_conv')
  next
    case False
    with Cons x show ?thesis by (simp add: assign_Cons)
  qed
qed

lemma map_of_wrap:
  "map_of (map (\<lambda>entry. (fst entry, g (snd entry))) xs) k = map_option g (map_of xs k)"
  by (induction xs) auto

lemma fst_wrap: "map fst (map (\<lambda>entry. (fst entry, g (snd entry))) xs) = map fst xs"
  by (induction xs) auto

lemma keys_wrap: "fst ` set (map (\<lambda>entry. (fst entry, g (snd entry))) xs) = fst ` set xs"
  by (induction xs) auto

lemma map_of_filter_key: "P k \<Longrightarrow> map_of (filter (\<lambda>(k, v). P k) bs) k = map_of bs k"
  by (induction bs) auto

lemma map_of_picked:
  "getBlocksOfType bs ty = Inr picked \<Longrightarrow> hasSetter ty k \<Longrightarrow> map_of picked k = map_of bs k"
  by (drule getBlocksOfType_Inr) (simp add: map_of_filter_key)

lemma mergeContinuous_other:
  "fst x \<noteq> k \<Longrightarrow> mergeContinuous num mg x = Inr mg' \<Longrightarrow> map_of mg' k = map_of mg k"
  by (auto simp: mergeContinuous_def update_conv' split: sum.splits option.splits if_splits)

lemma mergeContinuous_distinct:
  "distinct (map fst mg) \<Longrightarrow> mergeContinuous num mg x = Inr mg' \<Longrightarrow> distinct (map fst mg')"
  by (auto simp: mergeContinuous_def distinct_update split: sum.splits option.splits if_splits)

lemma concatContinuousBlocks_at:
  assumes "concatContinuousBlocks before after m = Inr r" "hasSetter Continuous k"
    "distinct (map fst (blocks before))" "distinct (map fst (blocks after))"
    "map_of (blocks before) k = Some (Nums bl)" "map_of (blocks after) k = Some (Nums al)"
  shows "map_of (blocks r) k =
     Some (Nums (mergeRule (int (length (text' before))) bl
                   (map (\<lambda>value. value + int (length (text' before))) al)))"
proof -
  let ?num = "int (length (text' before))"
  from assms(1) obtain pa mg0 pb mg1 where
    pa: "getBlocksOfType (blocks after) Continuous = Inr pa"
    and mg0: "mapValues (shiftNumbers ?num) pa = Inr mg0"
    and pb: "getBlocksOfType (blocks before) Continuous = Inr pb"
    and mg1: "each (mergeContinuous ?num) pb mg0 = Inr mg1"
    and r: "r = m\<lparr>blocks := assign (blocks m) (map (\<lambda>entry. (fst entry, Nums (snd entry))) mg1)\<rparr>"
    by (auto simp: concatContinuousBlocks_def Let_def split: sum.splits)
  have "map_of pa k = Some (Nums al)" using map_of_picked[OF pa assms(2)] assms(6) by simp
  from mapValues_at[OF mg0 this] have at0: "map_of mg0 k = Some (map (\<lambda>value. value + ?num) al)"
    by (auto simp: shiftNumbers_def)
  have d0: "distinct (map fst mg0)"
    using mapValues_keys[OF mg0] picked_distinct[OF pa assms(4)] by simp
  have inb: "(k, Nums bl) \<in> set pb"
    using picked_has[OF pb map_of_SomeD[OF assms(5)] assms(2)] .
  have at1: "map_of mg1 k = Some (mergeRule ?num bl (map (\<lambda>value. value + ?num) al))"
  proof (rule each_at[where L = "\<lambda>mg. map_of mg k" and ?L0.0 = "Some (map (\<lambda>value. value + ?num) al)",
        OF mg1 picked_distinct[OF pb assms(3)] inb at0])
    fix s x t assume "x \<in> set pb" "fst x \<noteq> k" "mergeContinuous ?num s x = Inr t"
    then show "map_of t k = map_of s k" by (simp add: mergeContinuous_other)
  next
    fix s t assume "map_of s k = Some (map (\<lambda>value. value + ?num) al)"
      "mergeContinuous ?num s (k, Nums bl) = Inr t"
    then show "map_of t k = Some (mergeRule ?num bl (map (\<lambda>value. value + ?num) al))"
      by (auto simp: mergeContinuous_def mergeRule_def update_conv' split: if_splits)
  qed
  have d1: "distinct (map fst mg1)"
    by (rule each_pred[where P = "\<lambda>mg. distinct (map fst mg)", OF mg1 d0])
       (rule mergeContinuous_distinct)
  let ?src = "map (\<lambda>entry. (fst entry, Nums (snd entry))) mg1"
  have "distinct (map fst ?src)" unfolding fst_wrap by (rule d1)
  moreover have "map_of ?src k = Some (Nums (mergeRule ?num bl (map (\<lambda>value. value + ?num) al)))"
    by (simp add: map_of_wrap at1)
  ultimately have "map_of (assign (blocks m) ?src) k =
      Some (Nums (mergeRule ?num bl (map (\<lambda>value. value + ?num) al)))"
    by (rule assign_at)
  then show ?thesis by (simp add: r)
qed

lemma mergeSingled_keys:
  "fst ` set mg \<subseteq> {k. hasSetter Singled k} \<Longrightarrow> hasSetter Singled (fst x) \<Longrightarrow>
     mergeSingled mg x = Inr mg' \<Longrightarrow> fst ` set mg' \<subseteq> {k. hasSetter Singled k}"
proof -
  assume mg: "fst ` set mg \<subseteq> {k. hasSetter Singled k}" and x: "hasSetter Singled (fst x)"
    and step: "mergeSingled mg x = Inr mg'"
  from step obtain w where "mg' = AList.update (fst x) w mg"
    by (auto simp: mergeSingled_def split: sum.splits option.splits)
  then have "fst ` set mg' = {fst x} \<union> fst ` set mg" by (simp add: dom_update)
  with mg x show ?thesis by auto
qed

lemma concatSingledBlocks_other:
  assumes "concatSingledBlocks before after m = Inr r" "hasSetter ty k" "ty \<noteq> Singled"
  shows "map_of (blocks r) k = map_of (blocks m) k"
proof -
  let ?num = "int (length (text' before))"
  from assms(1) obtain pa mg0 pb mg1 where
    pa: "getBlocksOfType (blocks after) Singled = Inr pa"
    and mg0: "mapValues (shiftNumbers ?num) pa = Inr mg0"
    and pb: "getBlocksOfType (blocks before) Singled = Inr pb"
    and mg1: "each mergeSingled pb mg0 = Inr mg1"
    and r: "r = m\<lparr>blocks := assign (blocks m) (map (\<lambda>entry. (fst entry, Nums (snd entry))) mg1)\<rparr>"
    by (auto simp: concatSingledBlocks_def Let_def split: sum.splits)
  have "set (map fst mg0) = set (map fst pa)" using mapValues_keys[OF mg0] by simp
  then have k0: "fst ` set mg0 \<subseteq> {k. hasSetter Singled k}"
    using picked_keys[OF pa] by auto
  have k1: "fst ` set mg1 \<subseteq> {k. hasSetter Singled k}"
  proof (rule each_pred[where P = "\<lambda>mg. fst ` set mg \<subseteq> {k. hasSetter Singled k}", OF mg1 k0])
    fix s x t
    assume x: "x \<in> set pb" and sk: "fst ` set s \<subseteq> {k. hasSetter Singled k}"
      and st: "mergeSingled s x = Inr t"
    from picked_keys[OF pb x] have "hasSetter Singled (fst x)" by simp
    from mergeSingled_keys[OF sk this st]
    show "fst ` set t \<subseteq> {k. hasSetter Singled k}" .
  qed
  have "\<not> hasSetter Singled k" using assms(2,3) hasSetter_unique by blast
  with k1 have "k \<notin> fst ` set mg1" by auto
  then have "k \<notin> fst ` set (map (\<lambda>entry. (fst entry, Nums (snd entry))) mg1)"
    unfolding keys_wrap .
  from assign_other[OF this] show ?thesis unfolding r by simp
qed

lemma concat_continuous:
  assumes "concat_models before after = Inr r" "hasSetter Continuous k"
    "distinct (map fst (blocks before))" "distinct (map fst (blocks after))"
    "map_of (blocks before) k = Some (Nums bl)" "map_of (blocks after) k = Some (Nums al)"
  shows "map_of (blocks r) k =
     Some (Nums (mergeRule (int (length (text' before))) bl
                   (map (\<lambda>value. value + int (length (text' before))) al)))"
proof -
  from assms(1) obtain m1 m2 where
    c: "concatContinuousBlocks before after m1 = Inr m2"
    and s: "concatSingledBlocks before after m2 = Inr r"
    by (auto simp: concat_models_def Let_def split: sum.splits)
  have "map_of (blocks r) k = map_of (blocks m2) k"
    by (rule concatSingledBlocks_other[OF s assms(2)]) simp
  also note concatContinuousBlocks_at[OF c assms(2-6)]
  finally show ?thesis .
qed


section \<open>A continuous span cut by split is joined by concat\<close>

lemma length_substr_prefix:
  "0 \<le> k \<Longrightarrow> k \<le> int (length t) \<Longrightarrow> int (length (substr t 0 (Some k))) = k"
  by (auto simp: substr_def Let_def min_def max_def)

lemma mergeRule_seam:
  assumes "Suc (2 * i) < length xs"
  shows "mergeRule k (take (2 * i) xs @ [xs ! (2 * i), k])
           (map (\<lambda>value. value + k)
              ([0, xs ! Suc (2 * i) - k] @ map (\<lambda>value. value - k) (drop (Suc (Suc (2 * i))) xs))) = xs"
proof -
  have shifted: "map (\<lambda>value. value + k)
      ([0, xs ! Suc (2 * i) - k] @ map (\<lambda>value. value - k) (drop (Suc (Suc (2 * i))) xs))
      = [k, xs ! Suc (2 * i)] @ drop (Suc (Suc (2 * i))) xs"
    by (simp add: comp_def)
  have "butlast (take (2 * i) xs @ [xs ! (2 * i), k]) = take (2 * i) xs @ [xs ! (2 * i)]"
    by (simp add: butlast_append)
  then have "mergeRule k (take (2 * i) xs @ [xs ! (2 * i), k])
      ([k, xs ! Suc (2 * i)] @ drop (Suc (Suc (2 * i))) xs)
      = take (2 * i) xs @ [xs ! (2 * i), xs ! Suc (2 * i)] @ drop (Suc (Suc (2 * i))) xs"
    by (simp add: mergeRule_def)
  with take_two_drop[OF assms] shifted show ?thesis by simp
qed

text \<open>
  Claim C3. In a range model with distinct keys, let a continuous kind have the strictly
  ascending list \<open>xs\<close>, and let the offset \<open>k\<close> lie strictly inside its pair number \<open>i\<close>,
  \<open>xs ! (2 i) < k < xs ! (2 i + 1)\<close>, with \<open>0 \<le> k \<le> text.length\<close>. Then split cuts the pair
  (\<open>before\<close> ends with the pair \<open>[start, k]\<close>, \<open>after\<close> begins with \<open>[0, end - k]\<close>), and
  concat of the two halves returns a model whose list for the kind is \<open>xs\<close> again: the
  pair \<open>[start, end]\<close> is one span, merged at the seam.
\<close>

theorem split_concat_continuous:
  assumes "rangeModel m" "distinct (map fst (blocks m))" "hasSetter Continuous kind"
    "map_of (blocks m) kind = Some (Nums xs)" "sorted_wrt (<) xs"
    "Suc (2 * i) < length xs" "xs ! (2 * i) < k" "k < xs ! Suc (2 * i)"
    "0 \<le> k" "k \<le> int (length (text' m))"
  shows "\<exists>b a r. split m k = Inr (b, a) \<and> concat_models b a = Inr r
     \<and> map_of (blocks b) kind = Some (Nums (take (2 * i) xs @ [xs ! (2 * i), k]))
     \<and> map_of (blocks a) kind =
          Some (Nums ([0, xs ! Suc (2 * i) - k] @ map (\<lambda>value. value - k) (drop (Suc (Suc (2 * i))) xs)))
     \<and> map_of (blocks r) kind = Some (Nums xs)"
proof -
  let ?bl = "take (2 * i) xs @ [xs ! (2 * i), k]"
  let ?al = "[0, xs ! Suc (2 * i) - k] @ map (\<lambda>value. value - k) (drop (Suc (Suc (2 * i))) xs)"
  from split_ok[OF assms(1), of k] obtain b a where
    sp: "split m k = Inr (b, a)" and rb: "rangeModel b" and ra: "rangeModel a"
    and tb: "text' b = substr (text' m) 0 (Some k)" by blast
  have cut: "splitContinuousList xs k = Inr (?bl, ?al)"
    by (rule splitContinuousList_inside[OF assms(5-8)])
  have nums: "nums_of (Nums xs) = Inr xs" by simp
  from split_continuous[OF sp assms(3,2,4) nums cut]
  have lb: "map_of (blocks b) kind = Some (Nums ?bl)" and la: "map_of (blocks a) kind = Some (Nums ?al)"
    by simp_all
  from split_distinct[OF sp] have db: "distinct (map fst (blocks b))" and da: "distinct (map fst (blocks a))"
    by simp_all
  from concat_ok[OF rb ra] obtain r where r: "concat_models b a = Inr r" by blast
  have num: "int (length (text' b)) = k"
    unfolding tb by (rule length_substr_prefix[OF assms(9,10)])
  from concat_continuous[OF r assms(3) db da lb la]
  have "map_of (blocks r) kind = Some (Nums (mergeRule k ?bl (map (\<lambda>value. value + k) ?al)))"
    unfolding num .
  then have "map_of (blocks r) kind = Some (Nums xs)"
    unfolding mergeRule_seam[OF assms(6)] .
  with sp r lb la show ?thesis by blast
qed

theorem split_concat_continuous_witness:
  "rangeModel \<lparr>text' = ''abcdefgh'', blocks = [(''strong'', Nums [0, 2, 3, 7])]\<rparr>
   \<and> distinct (map fst [(''strong'', Nums [0, 2, 3, 7])])
   \<and> hasSetter Continuous ''strong''
   \<and> sorted_wrt (<) [0, 2, 3, 7 :: int]
   \<and> [0, 2, 3, 7 :: int] ! 2 < 5 \<and> 5 < [0, 2, 3, 7 :: int] ! 3
   \<and> (\<exists>b a r. split \<lparr>text' = ''abcdefgh'', blocks = [(''strong'', Nums [0, 2, 3, 7])]\<rparr> 5 = Inr (b, a)
        \<and> concat_models b a = Inr r
        \<and> map_of (blocks b) ''strong'' = Some (Nums [0, 2, 3, 5])
        \<and> map_of (blocks a) ''strong'' = Some (Nums [0, 2])
        \<and> map_of (blocks r) ''strong'' = Some (Nums [0, 2, 3, 7]))"
proof -
  let ?m = "\<lparr>text' = ''abcdefgh'', blocks = [(''strong'', Nums [0, 2, 3, 7])]\<rparr>"
  have h1: "rangeModel ?m" by code_simp
  have h2: "distinct (map fst (blocks ?m))" by simp
  have h3: "hasSetter Continuous ''strong''" by code_simp
  have h4: "map_of (blocks ?m) ''strong'' = Some (Nums [0, 2, 3, 7])" by simp
  have h5: "sorted_wrt (<) [0, 2, 3, 7 :: int]" by simp
  have h6: "Suc (2 * 1) < length [0, 2, 3, 7 :: int]" by simp
  have h7: "[0, 2, 3, 7 :: int] ! (2 * 1) < 5" by simp
  have h8: "5 < [0, 2, 3, 7 :: int] ! Suc (2 * 1)" by simp
  have h9: "(0::int) \<le> 5" by simp
  have h10: "5 \<le> int (length (text' ?m))" by simp
  from split_concat_continuous[OF h1 h2 h3 h4 h5 h6 h7 h8 h9 h10] h1 h3 show ?thesis
    by (simp add: numeral_2_eq_2 numeral_3_eq_3)
qed


section \<open>The rendering order of two continuous kinds\<close>

lemma countPairs_filter:
  "countPairs blockA blockB =
     length (filter (\<lambda>range. getBinarySortedInsertPosition blockA (fst range) \<noteq>
                               (case snd range of
                                  Some e \<Rightarrow> getBinarySortedInsertPosition blockA e
                                | None \<Rightarrow> positionOfUndefined blockA))
                    (pairsOf blockB))"
  by (induction blockA blockB rule: countPairs.induct) auto

lemma sortContinuousBlocks_two:
  "sortContinuousBlocks [(A, as), (B, bs)] =
     (if getOverlapCount as [bs] \<le> getOverlapCount bs [as]
      then [(A, as), (B, bs)] else [(B, bs), (A, as)])"
  by (simp add: sortContinuousBlocks_def Let_def)

lemma sortContinuousBlocks_more: "2 < length l \<Longrightarrow> sortContinuousBlocks l = l"
  by (simp add: sortContinuousBlocks_def)

lemma mapValues_length: "mapValues f xs = Inr ws \<Longrightarrow> length ws = length xs"
  by (induction xs arbitrary: ws) (auto split: sum.splits)

text \<open>
  Claim C7. \<open>crossings(X, Y)\<close> is \<open>getOverlapCount X [Y]\<close>: the number of pairs of \<open>Y\<close>
  whose two ends have different insertion positions in \<open>X\<close>. With exactly two
  continuous kinds \<open>A\<close> and \<open>B\<close> (in the order of the keys), the loop of
  \<open>addContinuousBlocksToElement\<close> renders \<open>A\<close> first when
  \<open>crossings(A, B) \<le> crossings(B, A)\<close> and \<open>B\<close> first otherwise; with more than two kinds the
  order of the keys is kept. The three values of the spec are as stated.
\<close>

theorem continuous_render_order:
  "getOverlapCount X [Y] =
     length (filter (\<lambda>range. getBinarySortedInsertPosition X (fst range) \<noteq>
                               (case snd range of
                                  Some e \<Rightarrow> getBinarySortedInsertPosition X e
                                | None \<Rightarrow> positionOfUndefined X))
                    (pairsOf Y))
   \<and> sortContinuousBlocks [(A, as), (B, bs)] =
       (if getOverlapCount as [bs] \<le> getOverlapCount bs [as]
        then [(A, as), (B, bs)] else [(B, bs), (A, as)])
   \<and> (getBlocksOfType (blocks m) Continuous = Inr [(A, Nums as), (B, Nums bs)] \<longrightarrow>
        addContinuousBlocksToElement d m =
          forEach addContinuousKind
            (if getOverlapCount as [bs] \<le> getOverlapCount bs [as]
             then [(A, as), (B, bs)] else [(B, bs), (A, as)]) d)
   \<and> (2 < length l \<longrightarrow> sortContinuousBlocks l = l)
   \<and> (getBlocksOfType (blocks m') Continuous = Inr picked \<and> mapValues nums_of picked = Inr l
        \<and> 2 < length picked \<longrightarrow>
        addContinuousBlocksToElement d m' = forEach addContinuousKind l d)
   \<and> getOverlapCount [0, 10] [[5, 15]] = 1
   \<and> getOverlapCount [5, 15] [[0, 10]] = 1
   \<and> getOverlapCount [0, 20] [[5, 10]] = 0"
proof -
  have c1: "getOverlapCount [0, 10] [[5, 15]] = 1" by code_simp
  have c2: "getOverlapCount [5, 15] [[0, 10]] = 1" by code_simp
  have c3: "getOverlapCount [0, 20] [[5, 10]] = 0" by code_simp
  have two: "getBlocksOfType (blocks m) Continuous = Inr [(A, Nums as), (B, Nums bs)] \<longrightarrow>
        addContinuousBlocksToElement d m =
          forEach addContinuousKind
            (if getOverlapCount as [bs] \<le> getOverlapCount bs [as]
             then [(A, as), (B, bs)] else [(B, bs), (A, as)]) d"
    by (simp add: addContinuousBlocksToElement_def sortContinuousBlocks_two)
  have more: "getBlocksOfType (blocks m') Continuous = Inr picked \<and> mapValues nums_of picked = Inr l
        \<and> 2 < length picked \<longrightarrow>
        addContinuousBlocksToElement d m' = forEach addContinuousKind l d"
    using mapValues_length[of nums_of picked l]
    by (auto simp: addContinuousBlocksToElement_def sortContinuousBlocks_more)
  show ?thesis
    using c1 c2 c3 two more sortContinuousBlocks_two[of A as B bs] sortContinuousBlocks_more[of l]
    by (simp add: getOverlapCount_def countPairs_filter)
qed


theorem continuous_render_order_witness:
  "getBlocksOfType [(''strong'', Nums [4, 7]), (''emphasis'', Nums [0, 5, 6, 10])] Continuous =
     Inr [(''strong'', Nums [4, 7]), (''emphasis'', Nums [0, 5, 6, 10])]
   \<and> getOverlapCount [4, 7] [[0, 5, 6, 10]] = 2
   \<and> getOverlapCount [0, 5, 6, 10] [[4, 7]] = 1
   \<and> sortContinuousBlocks [(''strong'', [4, 7]), (''emphasis'', [0, 5, 6, 10])] =
       [(''emphasis'', [0, 5, 6, 10]), (''strong'', [4, 7])]
   \<and> addContinuousBlocksToElement \<lparr>childNodes = [Text 0 ''abcdefghij''], removed = [], fresh = 1\<rparr>
         \<lparr>text' = ''abcdefghij'',
            blocks = [(''strong'', Nums [4, 7]), (''emphasis'', Nums [0, 5, 6, 10])]\<rparr> =
       forEach addContinuousKind [(''emphasis'', [0, 5, 6, 10]), (''strong'', [4, 7])]
         \<lparr>childNodes = [Text 0 ''abcdefghij''], removed = [], fresh = 1\<rparr>
   \<and> sortContinuousBlocks [(''strong'', [4, 7]), (''emphasis'', [0, 5]), (''del'', [6, 10])] =
       [(''strong'', [4, 7]), (''emphasis'', [0, 5]), (''del'', [6, 10])]"
proof -
  let ?m = "\<lparr>text' = ''abcdefghij'',
             blocks = [(''strong'', Nums [4, 7]), (''emphasis'', Nums [0, 5, 6, 10])]\<rparr>"
  let ?d = "\<lparr>childNodes = [Text 0 ''abcdefghij''], removed = [], fresh = 1\<rparr>"
  let ?l = "[(''strong'', [4, 7]), (''emphasis'', [0, 5]), (''del'', [6, 10 :: int])]"
  have h1: "getBlocksOfType (blocks ?m) Continuous =
      Inr [(''strong'', Nums [4, 7]), (''emphasis'', Nums [0, 5, 6, 10])]" by code_simp
  have h2: "getOverlapCount [4, 7] [[0, 5, 6, 10]] = 2" by code_simp
  have h3: "getOverlapCount [0, 5, 6, 10] [[4, 7]] = 1" by code_simp
  have h4: "2 < length ?l" by simp
  from continuous_render_order[where A = "''strong''" and as = "[4, 7]" and B = "''emphasis''"
      and bs = "[0, 5, 6, 10]" and m = ?m and d = ?d and l = ?l]
    h1 h2 h3 h4
  show ?thesis by simp
qed

section \<open>Keys that are no kind names\<close>

lemma js_get_Undefined:
  "js_get obj k = Undefined \<longleftrightarrow> k \<notin> fst ` set obj \<and> k \<notin> set objectPrototype"
  unfolding map_of_eq_None_iff[symmetric] by (auto simp: js_get_def split: option.splits)

lemma firstUnknown_Some_iff:
  "(\<exists>k. firstUnknown bs = Some k) \<longleftrightarrow> (\<exists>key \<in> fst ` set bs. js_get blockTypes key = Undefined)"
  by (induction bs) (auto simp: firstUnknown_def)

lemma each_error:
  "each f xs s = Inl e \<Longrightarrow> \<exists>x \<in> set xs. \<exists>s0. f s0 x = Inl e"
  by (induction xs arbitrary: s) (auto split: sum.splits)

lemma mapValues_error:
  "mapValues f xs = Inl e \<Longrightarrow> \<exists>x \<in> set xs. f (snd x) = Inl e"
  by (induction xs) (auto split: sum.splits)

lemma forEach_error:
  "forEach f xs s = Some (Inl e) \<Longrightarrow> \<exists>x \<in> set xs. \<exists>s0. f s0 x = Some (Inl e)"
  by (induction xs arbitrary: s) (auto split: sum.splits option.splits)

lemma nums_of_error: "nums_of v = Inl e \<Longrightarrow> e = OutsideModel"
  by (cases v rule: nums_of.cases) auto

lemma objs_of_error: "objs_of v = Inl e \<Longrightarrow> e = OutsideModel"
  by (cases v rule: objs_of.cases) auto

lemma splitKind_error:
  "splitPropertiedKind num s x = Inl e \<Longrightarrow> e = OutsideModel"
  "splitContinuousKind num s x = Inl e \<Longrightarrow> e = OutsideModel"
  "splitSingledKind num s x = Inl e \<Longrightarrow> e = OutsideModel"
  by (auto simp: splitPropertiedKind_def splitContinuousKind_def splitSingledKind_def
      splitContinuousList_def Let_def
      split: sum.splits prod.splits if_splits dest: nums_of_error objs_of_error)

lemma split_unknown:
  "firstUnknown (blocks m) = Some k \<Longrightarrow> split m num = Inl (UndefinedBlockType k)"
  by (simp add: split_def Let_def splitPropertiedBlocks_def getBlocksOfType_unknown)

lemma split_known:
  assumes "firstUnknown (blocks m) = None"
  shows "split m num \<noteq> Inl (UndefinedBlockType k')"
proof
  assume "split m num = Inl (UndefinedBlockType k')"
  then consider
    (p) b0 a0 where "each (splitPropertiedKind num) (filter (\<lambda>(k, v). hasSetter Propertied k) (blocks m)) (b0, a0)
          = Inl (UndefinedBlockType k')"
  | (c) b1 a1 where "each (splitContinuousKind num) (filter (\<lambda>(k, v). hasSetter Continuous k) (blocks m)) (b1, a1)
          = Inl (UndefinedBlockType k')"
  | (s) b2 a2 where "each (splitSingledKind num) (filter (\<lambda>(k, v). hasSetter Singled k) (blocks m)) (b2, a2)
          = Inl (UndefinedBlockType k')"
    by (auto simp: split_def Let_def splitPropertiedBlocks_def splitContinuousBlocks_def
        splitSingledBlocks_def getBlocksOfType_known[OF assms] split: sum.splits)
  then show False
    by cases (auto dest!: each_error splitKind_error)
qed

lemma toElement_unknown:
  "firstUnknown (blocks m) = Some k \<Longrightarrow> toElement m = Some (Inl (UndefinedBlockType k))"
  by (simp add: toElement_def Let_def addPropertiedBlocksToElement_def getBlocksOfType_unknown)

lemma concat_unknown_after:
  "firstUnknown (blocks after) = Some k \<Longrightarrow> concat_models before after = Inl (UndefinedBlockType k)"
  by (simp add: concat_models_def Let_def concatPropertiedBlocks_def getBlocksOfType_unknown)

lemma concat_unknown_before:
  assumes "firstUnknown (blocks before) = Some k" "rangeModel after"
  shows "concat_models before after = Inl (UndefinedBlockType k)"
proof -
  let ?num = "int (length (text' before))"
  let ?pa = "filter (\<lambda>(k, v). hasSetter Propertied k) (blocks after)"
  have "\<exists>ws. mapValues (shiftPropertied ?num) ?pa = Inr ws"
    by (rule mapValues_total)
       (use picked_member[OF assms(2)] fits_objs in \<open>fastforce simp: shiftPropertied_def\<close>)
  then obtain ws where ws: "mapValues (shiftPropertied ?num) ?pa = Inr ws" ..
  show ?thesis
    by (simp add: concat_models_def Let_def concatPropertiedBlocks_def
        rangeModel_picks[OF assms(2)] ws getBlocksOfType_unknown[OF assms(1)])
qed

lemma merge_error:
  "mergePropertied mg x = Inl e \<Longrightarrow> e = OutsideModel"
  "mergeContinuous num mg' x = Inl e \<Longrightarrow> e = OutsideModel"
  "mergeSingled mg' x = Inl e \<Longrightarrow> e = OutsideModel"
  "shiftPropertied num v = Inl e \<Longrightarrow> e = OutsideModel"
  "shiftNumbers num v = Inl e \<Longrightarrow> e = OutsideModel"
  by (auto simp: mergePropertied_def mergeContinuous_def mergeSingled_def shiftPropertied_def
      shiftNumbers_def split: sum.splits option.splits if_splits dest: nums_of_error objs_of_error)

lemma concatBlocks_known:
  assumes "firstUnknown (blocks before) = None" "firstUnknown (blocks after) = None"
  shows "concatPropertiedBlocks before after m \<noteq> Inl (UndefinedBlockType k')"
    and "concatContinuousBlocks before after m \<noteq> Inl (UndefinedBlockType k')"
    and "concatSingledBlocks before after m \<noteq> Inl (UndefinedBlockType k')"
  by (auto simp: concatPropertiedBlocks_def concatContinuousBlocks_def concatSingledBlocks_def Let_def
      getBlocksOfType_known[OF assms(1)] getBlocksOfType_known[OF assms(2)]
      split: sum.splits dest!: each_error mapValues_error merge_error)

lemma concat_known:
  assumes "firstUnknown (blocks before) = None" "firstUnknown (blocks after) = None"
  shows "concat_models before after \<noteq> Inl (UndefinedBlockType k')"
  using concatBlocks_known[OF assms]
  by (auto simp: concat_models_def Let_def split: sum.splits)


lemma getTextNodeTargets_error:
  "getTextNodeTargets root s e = Some (Inl err) \<Longrightarrow> err = NullNodeValue"
  by (auto simp: getTextNodeTargets_def Let_def split: if_splits option.splits prod.splits)

lemma hasSetter_Own: "hasSetter ty k \<Longrightarrow> \<exists>tagName. js_get blockTypes k = Own (ty, tagName)"
  by (auto simp: hasSetter_def split: property.splits)

lemma splitTextNode_known:
  "hasSetter ty bt \<Longrightarrow> splitTextNode bt attrs d it \<noteq> Inl (UndefinedBlockType k')"
  by (auto simp: splitTextNode_def Let_def dest!: hasSetter_Own split: item.splits prod.splits if_splits)

lemma addSingledBlocks_known:
  "hasSetter ty bt \<Longrightarrow> addSingledBlocks bt d it \<noteq> Inl (UndefinedBlockType k')"
  by (auto simp: addSingledBlocks_def Let_def dest!: hasSetter_Own split: item.splits prod.splits if_splits)

lemma eachTarget_known:
  assumes "\<And>d it. f d it \<noteq> Inl (UndefinedBlockType k')"
  shows "eachTarget f d s e \<noteq> Some (Inl (UndefinedBlockType k'))"
proof
  assume a: "eachTarget f d s e = Some (Inl (UndefinedBlockType k'))"
  show False
  proof (cases "getTextNodeTargets (childNodes d) s e")
    case None
    with a show False by (simp add: eachTarget_def)
  next
    case (Some res)
    show False
    proof (cases res)
      case (Inl err)
      with Some a getTextNodeTargets_error[of "childNodes d" s e err] show False
        by (simp add: eachTarget_def)
    next
      case (Inr list)
      with Some a have "each f list d = Inl (UndefinedBlockType k')" by (simp add: eachTarget_def)
      from each_error[OF this] assms show False by blast
    qed
  qed
qed

lemma eachTarget_split_known:
  "hasSetter ty bt \<Longrightarrow>
     eachTarget (splitTextNode bt attrs) d s e \<noteq> Some (Inl (UndefinedBlockType k'))"
  by (rule eachTarget_known) (rule splitTextNode_known)

lemma eachTarget_singled_known:
  "hasSetter ty bt \<Longrightarrow>
     eachTarget (addSingledBlocks bt) d s e \<noteq> Some (Inl (UndefinedBlockType k'))"
  by (rule eachTarget_known) (rule addSingledBlocks_known)

lemma addPropertiedKind_known:
  assumes "hasSetter Propertied (fst entry)"
  shows "addPropertiedKind d entry \<noteq> Some (Inl (UndefinedBlockType k'))"
proof
  assume a: "addPropertiedKind d entry = Some (Inl (UndefinedBlockType k'))"
  show False
  proof (cases "objs_of (snd entry)")
    case (Inl e)
    with a objs_of_error[OF Inl] show False by (simp add: addPropertiedKind_def)
  next
    case (Inr bs)
    with a have "forEach (\<lambda>d block. eachTarget (splitTextNode (fst entry) (attributes block)) d
                               (start block) (Some (end' block))) bs d = Some (Inl (UndefinedBlockType k'))"
      by (simp add: addPropertiedKind_def)
    from forEach_error[OF this] eachTarget_split_known[OF assms]
    show False by blast
  qed
qed

lemma addContinuousKind_known:
  assumes "hasSetter Continuous (fst entry)"
  shows "addContinuousKind d entry \<noteq> Some (Inl (UndefinedBlockType k'))"
proof
  assume "addContinuousKind d entry = Some (Inl (UndefinedBlockType k'))"
  then have "forEach (\<lambda>d range. eachTarget (splitTextNode (fst entry) []) d (fst range) (snd range))
             (pairsOf (snd entry)) d = Some (Inl (UndefinedBlockType k'))"
    by (simp add: addContinuousKind_def)
  from forEach_error[OF this] eachTarget_split_known[OF assms]
  show False by blast
qed

lemma addSingledKind_known:
  assumes "hasSetter Singled (fst entry)"
  shows "addSingledKind d entry \<noteq> Some (Inl (UndefinedBlockType k'))"
proof
  assume a: "addSingledKind d entry = Some (Inl (UndefinedBlockType k'))"
  show False
  proof (cases "nums_of (snd entry)")
    case (Inl e)
    with a nums_of_error[OF Inl] show False by (simp add: addSingledKind_def)
  next
    case (Inr ps)
    with a have "forEach (\<lambda>d pos. eachTarget (addSingledBlocks (fst entry)) d pos (Some pos)) ps d
        = Some (Inl (UndefinedBlockType k'))"
      by (simp add: addSingledKind_def)
    from forEach_error[OF this] eachTarget_singled_known[OF assms]
    show False by blast
  qed
qed

lemma keys_sortContinuousBlocks: "set (sortContinuousBlocks l) = set l"
  by (simp add: sortContinuousBlocks_def Let_def)

lemma filter_hasSetter: "x \<in> set (filter (\<lambda>(k, v). hasSetter ty k) bs) \<Longrightarrow> hasSetter ty (fst x)"
  by auto

lemma addPropertiedBlocksToElement_known:
  assumes "firstUnknown (blocks m) = None"
  shows "addPropertiedBlocksToElement d m \<noteq> Some (Inl (UndefinedBlockType k'))"
proof
  assume "addPropertiedBlocksToElement d m = Some (Inl (UndefinedBlockType k'))"
  then have "forEach addPropertiedKind (filter (\<lambda>(k, v). hasSetter Propertied k) (blocks m)) d
      = Some (Inl (UndefinedBlockType k'))"
    by (simp add: addPropertiedBlocksToElement_def getBlocksOfType_known[OF assms])
  from forEach_error[OF this] obtain x s0 where
    "x \<in> set (filter (\<lambda>(k, v). hasSetter Propertied k) (blocks m))"
    "addPropertiedKind s0 x = Some (Inl (UndefinedBlockType k'))" by blast
  with addPropertiedKind_known[OF filter_hasSetter] show False by blast
qed

lemma addSingledBlocksToElement_known:
  assumes "firstUnknown (blocks m) = None"
  shows "addSingledBlocksToElement d m \<noteq> Some (Inl (UndefinedBlockType k'))"
proof
  assume "addSingledBlocksToElement d m = Some (Inl (UndefinedBlockType k'))"
  then have "forEach addSingledKind (filter (\<lambda>(k, v). hasSetter Singled k) (blocks m)) d
      = Some (Inl (UndefinedBlockType k'))"
    by (simp add: addSingledBlocksToElement_def getBlocksOfType_known[OF assms])
  from forEach_error[OF this] obtain x s0 where
    "x \<in> set (filter (\<lambda>(k, v). hasSetter Singled k) (blocks m))"
    "addSingledKind s0 x = Some (Inl (UndefinedBlockType k'))" by blast
  with addSingledKind_known[OF filter_hasSetter] show False by blast
qed

lemma addContinuousBlocksToElement_known:
  assumes "firstUnknown (blocks m) = None"
  shows "addContinuousBlocksToElement d m \<noteq> Some (Inl (UndefinedBlockType k'))"
proof
  let ?picked = "filter (\<lambda>(k, v). hasSetter Continuous k) (blocks m)"
  assume a: "addContinuousBlocksToElement d m = Some (Inl (UndefinedBlockType k'))"
  show False
  proof (cases "mapValues nums_of ?picked")
    case (Inl e)
    from mapValues_error[OF Inl] nums_of_error have "e = OutsideModel" by blast
    with a Inl show False
      by (simp add: addContinuousBlocksToElement_def getBlocksOfType_known[OF assms])
  next
    case (Inr cont)
    with a have "forEach addContinuousKind (sortContinuousBlocks cont) d
        = Some (Inl (UndefinedBlockType k'))"
      by (simp add: addContinuousBlocksToElement_def getBlocksOfType_known[OF assms])
    from forEach_error[OF this] obtain x s0 where
      x: "x \<in> set cont" and e: "addContinuousKind s0 x = Some (Inl (UndefinedBlockType k'))"
      unfolding keys_sortContinuousBlocks by blast
    from x have "fst x \<in> set (map fst cont)" by simp
    then have "fst x \<in> set (map fst ?picked)" unfolding mapValues_keys[OF Inr] .
    then have "hasSetter Continuous (fst x)" by auto
    from addContinuousKind_known[OF this] e show False by blast
  qed
qed

lemma toElement_known:
  assumes "firstUnknown (blocks m) = None"
  shows "toElement m \<noteq> Some (Inl (UndefinedBlockType k'))"
  using addPropertiedBlocksToElement_known[OF assms] addContinuousBlocksToElement_known[OF assms]
    addSingledBlocksToElement_known[OF assms]
  by (auto simp: toElement_def Let_def split: option.splits sum.splits)


lemma kind_names_known:
  "list_all (\<lambda>key. key \<in> fst ` set blockTypes) (map fst bs) \<Longrightarrow> firstUnknown bs = None"
  by (induction bs) (auto simp: firstUnknown_def js_get_Undefined)

text \<open>
  Claim C10, the counterexample: \<^verbatim>\<open>constructor\<close> is no kind name, but
  \<^verbatim>\<open>blockTypes['constructor']\<close> is the inherited function \<^verbatim>\<open>Object\<close>, whose \<^verbatim>\<open>set\<close> is
  \<^verbatim>\<open>undefined\<close>: nothing is thrown, and split, concat and emit leave the key out.
\<close>

theorem inherited_key_counterexample:
  "''constructor'' \<notin> set (map fst blockTypes)
   \<and> split \<lparr>text' = ''abc'', blocks = [(''constructor'', Nums [1])]\<rparr> 1 =
       Inr (\<lparr>text' = ''a'', blocks = []\<rparr>, \<lparr>text' = ''bc'', blocks = []\<rparr>)
   \<and> concat_models \<lparr>text' = ''abc'', blocks = [(''constructor'', Nums [1])]\<rparr>
         \<lparr>text' = ''abc'', blocks = [(''constructor'', Nums [1])]\<rparr> =
       Inr \<lparr>text' = ''abcabc'', blocks = []\<rparr>
   \<and> toElement \<lparr>text' = ''abc'', blocks = [(''constructor'', Nums [1])]\<rparr> =
       Some (Inr [Text 0 ''abc''])"
  by code_simp

text \<open>
  Claim C10, as amended. \<^verbatim>\<open>blockTypes[k]\<close> is \<^verbatim>\<open>undefined\<close> exactly for a key \<open>k\<close> that is
  neither a kind name of the table nor a name inherited from \<^verbatim>\<open>Object.prototype\<close>. If
  the blocks of a model have such a key, then split and emit throw at the first such key
  (reading \<^verbatim>\<open>.set\<close> of \<^verbatim>\<open>undefined\<close>), and so does concat when the model is its second
  argument, or its first argument beside a range model. If the blocks have no such key,
  in particular when every key is a kind name, none of the three throws this error.
\<close>

theorem unknown_key_throws:
  "(js_get blockTypes k = Undefined \<longleftrightarrow> k \<notin> fst ` set blockTypes \<and> k \<notin> set objectPrototype)
   \<and> ((\<exists>k. firstUnknown (blocks m) = Some k) \<longleftrightarrow>
        (\<exists>key \<in> fst ` set (blocks m). js_get blockTypes key = Undefined))
   \<and> (firstUnknown (blocks m) = Some k \<longrightarrow>
        split m num = Inl (UndefinedBlockType k)
        \<and> toElement m = Some (Inl (UndefinedBlockType k))
        \<and> concat_models before m = Inl (UndefinedBlockType k)
        \<and> (rangeModel after \<longrightarrow> concat_models m after = Inl (UndefinedBlockType k)))
   \<and> (firstUnknown (blocks m) = None \<longrightarrow>
        split m num \<noteq> Inl (UndefinedBlockType k')
        \<and> toElement m \<noteq> Some (Inl (UndefinedBlockType k'))
        \<and> (firstUnknown (blocks m2) = None \<longrightarrow> concat_models m m2 \<noteq> Inl (UndefinedBlockType k')))
   \<and> (list_all (\<lambda>key. key \<in> fst ` set blockTypes) (map fst (blocks m)) \<longrightarrow>
        firstUnknown (blocks m) = None)"
proof -
  have a: "js_get blockTypes k = Undefined \<longleftrightarrow> k \<notin> fst ` set blockTypes \<and> k \<notin> set objectPrototype"
    by (rule js_get_Undefined)
  have b: "(\<exists>k. firstUnknown (blocks m) = Some k) \<longleftrightarrow>
        (\<exists>key \<in> fst ` set (blocks m). js_get blockTypes key = Undefined)"
    by (rule firstUnknown_Some_iff)
  have c: "firstUnknown (blocks m) = Some k \<longrightarrow>
        split m num = Inl (UndefinedBlockType k)
        \<and> toElement m = Some (Inl (UndefinedBlockType k))
        \<and> concat_models before m = Inl (UndefinedBlockType k)
        \<and> (rangeModel after \<longrightarrow> concat_models m after = Inl (UndefinedBlockType k))"
    using split_unknown toElement_unknown concat_unknown_after concat_unknown_before by blast
  have d: "firstUnknown (blocks m) = None \<longrightarrow>
        split m num \<noteq> Inl (UndefinedBlockType k')
        \<and> toElement m \<noteq> Some (Inl (UndefinedBlockType k'))
        \<and> (firstUnknown (blocks m2) = None \<longrightarrow> concat_models m m2 \<noteq> Inl (UndefinedBlockType k'))"
    using split_known toElement_known concat_known by blast
  have e: "list_all (\<lambda>key. key \<in> fst ` set blockTypes) (map fst (blocks m)) \<longrightarrow>
        firstUnknown (blocks m) = None"
    using kind_names_known by blast
  from a b c d e show ?thesis by blast
qed

theorem unknown_key_throws_witness:
  "firstUnknown [(''strong'', Nums [0, 2]), (''bogus'', Nums [1])] = Some ''bogus''
   \<and> rangeModel \<lparr>text' = ''abc'', blocks = [(''strong'', Nums [0, 2])]\<rparr>
   \<and> list_all (\<lambda>key. key \<in> fst ` set blockTypes) (map fst [(''strong'', Nums [0, 2 :: int])])
   \<and> split \<lparr>text' = ''abc'', blocks = [(''strong'', Nums [0, 2]), (''bogus'', Nums [1])]\<rparr> 1 =
       Inl (UndefinedBlockType ''bogus'')
   \<and> toElement \<lparr>text' = ''abc'', blocks = [(''strong'', Nums [0, 2]), (''bogus'', Nums [1])]\<rparr> =
       Some (Inl (UndefinedBlockType ''bogus''))
   \<and> concat_models \<lparr>text' = ''abc'', blocks = [(''strong'', Nums [0, 2])]\<rparr>
        \<lparr>text' = ''abc'', blocks = [(''strong'', Nums [0, 2]), (''bogus'', Nums [1])]\<rparr> =
       Inl (UndefinedBlockType ''bogus'')
   \<and> concat_models \<lparr>text' = ''abc'', blocks = [(''strong'', Nums [0, 2]), (''bogus'', Nums [1])]\<rparr>
        \<lparr>text' = ''abc'', blocks = [(''strong'', Nums [0, 2])]\<rparr> =
       Inl (UndefinedBlockType ''bogus'')
   \<and> firstUnknown [(''strong'', Nums [0, 2])] = None
   \<and> split \<lparr>text' = ''abc'', blocks = [(''strong'', Nums [0, 2])]\<rparr> 1 \<noteq> Inl (UndefinedBlockType ''strong'')
   \<and> toElement \<lparr>text' = ''abc'', blocks = [(''strong'', Nums [0, 2])]\<rparr> \<noteq>
       Some (Inl (UndefinedBlockType ''strong''))
   \<and> concat_models \<lparr>text' = ''abc'', blocks = [(''strong'', Nums [0, 2])]\<rparr>
        \<lparr>text' = ''abc'', blocks = [(''strong'', Nums [0, 2])]\<rparr> \<noteq> Inl (UndefinedBlockType ''strong'')"
proof -
  let ?bad = "\<lparr>text' = ''abc'', blocks = [(''strong'', Nums [0, 2]), (''bogus'', Nums [1])]\<rparr>"
  let ?good = "\<lparr>text' = ''abc'', blocks = [(''strong'', Nums [0, 2])]\<rparr>"
  have h1: "firstUnknown (blocks ?bad) = Some ''bogus''" by code_simp
  have h2: "rangeModel ?good" by code_simp
  have h3: "list_all (\<lambda>key. key \<in> fst ` set blockTypes) (map fst (blocks ?good))" by code_simp
  from unknown_key_throws[where m = ?bad and k = "''bogus''" and num = 1 and before = ?good
      and after = ?good]
    unknown_key_throws[where m = ?good and ?m2.0 = ?good and k' = "''strong''" and num = 1]
    h1 h2 h3
  show ?thesis by simp
qed


section \<open>Propertied ranges under split\<close>

lemma foldl_pushPropertied:
  "foldl (pushPropertied num) (bs, as) blockList =
     (bs @ map (\<lambda>b. if start b < num \<and> end' b < num then b else b\<lparr>end' := num\<rparr>)
             (filter (\<lambda>b. \<not> (start b > num \<and> end' b > num)) blockList),
      as @ map (\<lambda>b. if start b > num \<and> end' b > num
                      then b\<lparr>start := start b - num, end' := end' b - num\<rparr>
                      else b\<lparr>start := 0, end' := end' b - num\<rparr>)
             (filter (\<lambda>b. \<not> (start b < num \<and> end' b < num)) blockList))"
  by (induction blockList arbitrary: bs as) (auto simp: pushPropertied_def)

lemma splitPropertiedBlocks_at:
  assumes "splitPropertiedBlocks m before after num = Inr s'" "hasSetter Propertied k"
    "distinct (map fst (blocks m))" "(k, v) \<in> set (blocks m)" "objs_of v = Inr ranges"
    "at k (before, after) = (None, None)"
  shows "at k s' =
     (optObjs (map (\<lambda>b. if start b < num \<and> end' b < num then b else b\<lparr>end' := num\<rparr>)
                 (filter (\<lambda>b. \<not> (start b > num \<and> end' b > num)) ranges)),
      optObjs (map (\<lambda>b. if start b > num \<and> end' b > num
                          then b\<lparr>start := start b - num, end' := end' b - num\<rparr>
                          else b\<lparr>start := 0, end' := end' b - num\<rparr>)
                 (filter (\<lambda>b. \<not> (start b < num \<and> end' b < num)) ranges)))"
proof -
  from assms(1) obtain picked where p: "getBlocksOfType (blocks m) Propertied = Inr picked"
    and e: "each (splitPropertiedKind num) picked (before, after) = Inr s'"
    by (auto simp: splitPropertiedBlocks_def split: sum.splits)
  show ?thesis
  proof (rule each_at[where L = "at k" and ?L0.0 = "(None, None)",
        OF e picked_distinct[OF p assms(3)] picked_has[OF p assms(4,2)] assms(6)])
    fix s x t assume "x \<in> set picked" "fst x \<noteq> k" "splitPropertiedKind num s x = Inr t"
    then show "at k t = at k s" by (simp add: splitKind_other)
  next
    fix s t assume "at k s = (None, None)" "splitPropertiedKind num s (k, v) = Inr t"
    then show "at k t =
     (optObjs (map (\<lambda>b. if start b < num \<and> end' b < num then b else b\<lparr>end' := num\<rparr>)
                 (filter (\<lambda>b. \<not> (start b > num \<and> end' b > num)) ranges)),
      optObjs (map (\<lambda>b. if start b > num \<and> end' b > num
                          then b\<lparr>start := start b - num, end' := end' b - num\<rparr>
                          else b\<lparr>start := 0, end' := end' b - num\<rparr>)
                 (filter (\<lambda>b. \<not> (start b < num \<and> end' b < num)) ranges)))"
      using assms(5)
      by (auto simp: splitPropertiedKind_def foldl_pushPropertied at_def map_of_setBlocksIfAny optObjs_def)
  qed
qed

text \<open>
  What split does with the propertied ranges of one kind, in general: a range with both
  ends less than the offset goes to \<open>before\<close> unchanged, a range with both ends greater
  goes to \<open>after\<close> shifted, and every other range, one that only touches the offset
  included, is cloned into both.
\<close>

lemma split_propertied_ranges:
  assumes "rangeModel m" "distinct (map fst (blocks m))" "hasSetter Propertied kind"
    "map_of (blocks m) kind = Some (Objs ranges)"
  shows "\<exists>b a. split m num = Inr (b, a)
     \<and> map_of (blocks b) kind =
         optObjs (map (\<lambda>b. if start b < num \<and> end' b < num then b else b\<lparr>end' := num\<rparr>)
                   (filter (\<lambda>b. \<not> (start b > num \<and> end' b > num)) ranges))
     \<and> map_of (blocks a) kind =
         optObjs (map (\<lambda>b. if start b > num \<and> end' b > num
                            then b\<lparr>start := start b - num, end' := end' b - num\<rparr>
                            else b\<lparr>start := 0, end' := end' b - num\<rparr>)
                   (filter (\<lambda>b. \<not> (start b < num \<and> end' b < num)) ranges))"
proof -
  from split_ok[OF assms(1), of num] obtain b a where sp: "split m num = Inr (b, a)" by blast
  from sp obtain b1 a1 b2 a2 where
    s1: "splitPropertiedBlocks m \<lparr>text' = substr (text' m) 0 (Some num), blocks = []\<rparr>
        \<lparr>text' = substr (text' m) num None, blocks = []\<rparr> num = Inr (b1, a1)"
    and s2: "splitContinuousBlocks m b1 a1 num = Inr (b2, a2)"
    and s3: "splitSingledBlocks m b2 a2 num = Inr (b, a)"
    by (rule split_stages)
  have objs: "objs_of (Objs ranges) = Inr ranges" by simp
  have init: "at kind (\<lparr>text' = substr (text' m) 0 (Some num), blocks = []\<rparr>,
        \<lparr>text' = substr (text' m) num None, blocks = []\<rparr>) = (None, None)"
    by (simp add: at_def)
  note r1 = splitPropertiedBlocks_at[OF s1 assms(3,2) map_of_SomeD[OF assms(4)] objs init]
  have "at kind (b2, a2) = at kind (b1, a1)"
    by (rule splitContinuousBlocks_other[OF s2 assms(3)]) simp
  moreover have "at kind (b, a) = at kind (b2, a2)"
    by (rule splitSingledBlocks_other[OF s3 assms(3)]) simp
  ultimately have "at kind (b, a) = at kind (b1, a1)" by simp
  with r1 sp show ?thesis by (auto simp: at_def)
qed


section \<open>Ingest returns well-formed lists\<close>

lemma tagTypes_blockTypes:
  "list_all (\<lambda>entry. js_get blockTypes (snd (snd entry)) = Own (fst (snd entry), fst entry)) tagTypes"
  by code_simp

lemma sameAs_continuous:
  "list_all (\<lambda>entry. case js_get tagTypes (snd entry) of
                        Own t \<Rightarrow> fst t = Continuous | Inherited \<Rightarrow> False | Undefined \<Rightarrow> False) sameAs"
  by code_simp

lemma js_get_Own: "js_get obj k = Own v \<Longrightarrow> (k, v) \<in> set obj"
  by (auto simp: js_get_def split: option.splits if_splits dest: map_of_SomeD)

lemma tagType_hasSetter: "tagType name = Inr (setr, blockName) \<Longrightarrow> hasSetter setr blockName"
proof -
  assume "tagType name = Inr (setr, blockName)"
  then obtain n where "js_get tagTypes n = Own (setr, blockName)"
    by (auto simp: tagType_def split: option.splits property.splits)
  from js_get_Own[OF this] tagTypes_blockTypes
  have "js_get blockTypes blockName = Own (setr, n)" by (auto simp: list_all_iff)
  then show ?thesis by (simp add: hasSetter_def)
qed

lemma tagType_propertied_raw:
  assumes "tagType (getNodeName n) = Inr (Propertied, blockName)"
  shows "tagType (Some (nodeName n)) = Inr (Propertied, blockName)"
proof (cases "js_get sameAs (nodeName n)")
  case (Own al)
  from js_get_Own[OF Own] sameAs_continuous
  have "case js_get tagTypes al of Own t \<Rightarrow> fst t = Continuous | Inherited \<Rightarrow> False | Undefined \<Rightarrow> False"
    by (auto simp: list_all_iff)
  with assms Own show ?thesis
    by (auto simp: getNodeName_def tagType_def split: property.splits)
next
  case Inherited
  with assms show ?thesis by (simp add: getNodeName_def tagType_def)
next
  case Undefined
  with assms show ?thesis by (simp add: getNodeName_def)
qed

lemma sorted_raise_last:
  assumes "sorted_wrt (<) xs" "xs \<noteq> []"
  shows "sorted_wrt (<) (xs[length xs - 1 := max (xs ! (length xs - 1)) (e::int)])"
proof -
  from assms(2) obtain ys y where xs: "xs = ys @ [y]" by (metis rev_exhaust)
  with assms(1) show ?thesis by (auto simp: sorted_wrt_append)
qed

lemma sorted_push_pair:
  assumes "sorted_wrt (<) xs" "xs = [] \<or> xs ! (length xs - 1) < s" "s < (e::int)"
  shows "sorted_wrt (<) (xs @ [s, e])"
proof (cases "xs = []")
  case True
  with assms(3) show ?thesis by simp
next
  case False
  then obtain ys y where xs: "xs = ys @ [y]" by (metis rev_exhaust)
  with assms show ?thesis by (auto simp: sorted_wrt_append)
qed

lemma wellFormed_setBlocks:
  "wellFormed m \<Longrightarrow> wellFormedList (k, v) \<Longrightarrow> wellFormed (setBlocks m k v)"
  by (simp add: wellFormed_def setBlocks_def list_all_update)

lemma blockOf_wellFormed:
  assumes "wellFormed m" "nums_of (blockOf m k) = Inr xs"
  shows "if hasSetter Continuous k then even (length xs) \<and> sorted_wrt (<) xs else True"
proof (cases "map_of (blocks m) k")
  case None
  with assms(2) show ?thesis by (simp add: blockOf_def)
next
  case (Some v)
  from map_of_SomeD[OF Some] assms(1) have "wellFormedList (k, v)"
    by (auto simp: wellFormed_def list_all_iff)
  show ?thesis
  proof (cases v)
    case (Nums ys)
    with Some assms(2) \<open>wellFormedList (k, v)\<close> show ?thesis
      by (auto simp: blockOf_def wellFormedList_def split: if_splits)
  next
    case (Objs bs)
    with Some assms(2) \<open>wellFormedList (k, v)\<close> show ?thesis
      by (cases bs) (auto simp: blockOf_def wellFormedList_def)
  qed
qed

lemma continuous_wellFormed:
  assumes "wellFormed m" "continuous m n = Inr m'"
  shows "wellFormed m'"
proof (cases "int (length (text' m)) = int (length (text' m)) + int (length (getContentText n))")
  case True
  with assms show ?thesis by (simp add: continuous_def Let_def)
next
  case False
  define st where "st = int (length (text' m))"
  define en where "en = st + int (length (getContentText n))"
  from False have lt: "st < en" by (simp add: st_def en_def)
  from assms(2) False obtain setr k xs where
    tt: "tagType (getNodeName n) = Inr (setr, k)" and xs: "nums_of (blockOf m k) = Inr xs"
    and m': "m' = (if length xs \<ge> 2 \<and> xs ! (length xs - 1) \<ge> st
                  then setBlocks m k (Nums (xs[length xs - 1 := max (xs ! (length xs - 1)) en]))
                  else setBlocks m k (Nums (xs @ [st, en])))"
    by (auto simp: continuous_def Let_def st_def en_def split: sum.splits if_splits)
  note old = blockOf_wellFormed[OF assms(1) xs]
  define continuation where "continuation = (length xs \<ge> 2 \<and> xs ! (length xs - 1) \<ge> st)"
  have m'': "m' = (if continuation
                  then setBlocks m k (Nums (xs[length xs - 1 := max (xs ! (length xs - 1)) en]))
                  else setBlocks m k (Nums (xs @ [st, en])))"
    unfolding continuation_def by (rule m')
  show ?thesis
  proof (cases continuation)
    case True
    then have ne: "xs \<noteq> []" by (auto simp: continuation_def)
    have "wellFormedList (k, Nums (xs[length xs - 1 := max (xs ! (length xs - 1)) en]))"
      using old ne sorted_raise_last[of xs en] by (auto simp: wellFormedList_def split: if_splits)
    with True m'' assms(1) show ?thesis by (simp add: wellFormed_setBlocks)
  next
    case False
    then have push: "\<not> (length xs \<ge> 2 \<and> xs ! (length xs - 1) \<ge> st)"
      by (simp add: continuation_def)
    have "wellFormedList (k, Nums (xs @ [st, en]))"
    proof (cases "hasSetter Continuous k")
      case True
      with old have ev: "even (length xs)" and srt: "sorted_wrt (<) xs" by simp_all
      have "xs = [] \<or> xs ! (length xs - 1) < st"
      proof (cases "xs = []")
        case False
        with ev have "length xs \<ge> 2" by (cases xs rule: list.exhaust; cases "tl xs") auto
        with push show ?thesis by auto
      qed simp
      from sorted_push_pair[OF srt this lt] ev True show ?thesis
        by (simp add: wellFormedList_def)
    next
      case False
      then show ?thesis by (simp add: wellFormedList_def)
    qed
    with False m'' assms(1) show ?thesis by (simp add: wellFormed_setBlocks)
  qed
qed

lemma propertied_wellFormed:
  assumes "wellFormed m" "propertied m n = Inr m'"
  shows "wellFormed m'"
  using assms
  by (auto simp: propertied_def Let_def wellFormedList_def
      split: if_splits sum.splits intro!: wellFormed_setBlocks)

lemma singled_wellFormed:
  assumes "wellFormed m" "singled m n = Inr m'" "tagType (getNodeName n) = Inr (Singled, k)"
  shows "wellFormed m'"
proof -
  from tagType_hasSetter[OF assms(3)] have "\<not> hasSetter Continuous k"
    using hasSetter_unique by blast
  with assms show ?thesis
    by (auto simp: singled_def Let_def wellFormedList_def split: sum.splits intro!: wellFormed_setBlocks)
qed

lemma callSetter_wellFormed:
  assumes "wellFormed m" "tagType (getNodeName n) = Inr (setr, k)" "callSetter setr m n = Inr m'"
  shows "wellFormed m'"
  using assms
  by (cases setr) (auto intro: continuous_wellFormed propertied_wellFormed singled_wellFormed)

lemma visit_wellFormed:
  "wellFormed m \<Longrightarrow> visitNode parent m n = Inr m' \<Longrightarrow> wellFormed m'"
  "wellFormed m \<Longrightarrow> visitNodes parent m ns = Inr m' \<Longrightarrow> wellFormed m'"
proof (induction parent m n and parent m ns arbitrary: m' and m' rule: visitNode_visitNodes.induct)
  case (1 parent m i v)
  then show ?case by (auto simp: wellFormed_def split: if_splits)
next
  case (2 parent m name attrs children)
  show ?case
  proof (cases "js_get tagTypes name")
    case (Own known)
    with "2.prems"(2) obtain setr k m1 where
      tt: "tagType (getNodeName (Element name attrs children)) = Inr (setr, k)"
      and cs: "callSetter setr m (Element name attrs children) = Inr m1"
      and rest: "visitNodes (Some name) m1 children = Inr m'"
      by (auto split: sum.splits)
    from callSetter_wellFormed[OF "2.prems"(1) tt cs] have "wellFormed m1" .
    with "2.IH"(1) Own tt cs rest show ?thesis by blast
  next
    case Inherited
    with "2.prems"(2) show ?thesis by simp
  next
    case Undefined
    with "2.prems" "2.IH"(2) show ?thesis by simp
  qed
next
  case (3 parent m)
  then show ?case by simp
next
  case (4 parent m n ns)
  from "4.prems"(2) obtain m1 where a: "visitNode parent m n = Inr m1"
    and b: "visitNodes parent m1 ns = Inr m'" by (auto split: sum.splits)
  from "4.IH"(1)[OF "4.prems"(1) a] have "wellFormed m1" .
  from "4.IH"(2)[OF a this b] show ?case .
qed

lemma fromElement_wellFormed:
  assumes "fromElement e = Inr m"
  shows "wellFormed m"
proof -
  have "wellFormed \<lparr>text' = [], blocks = []\<rparr>" by (simp add: wellFormed_def)
  from visit_wellFormed(2)[OF this] assms show ?thesis by (simp add: fromElement_def)
qed


section \<open>Ingest and emit on examples; boundary cases of split\<close>

text \<open>
  Claim C4, the counterexample: the tree \<^verbatim>\<open><p><b>ab<i>cd</i>ef</b></p>\<close> does not ingest to
  the model of the claim; the result has no list under \<^verbatim>\<open>bold\<close>.
\<close>

theorem ingest_example_counterexample:
  "fromElement (Node (Element ''P'' []
       [Element ''B'' [] [Text 0 ''ab'', Element ''I'' [] [Text 1 ''cd''], Text 2 ''ef'']])) \<noteq>
     Inr \<lparr>text' = ''abcdef'', blocks = [(''bold'', Nums [0, 6]), (''emphasis'', Nums [2, 4])]\<rparr>
   \<and> (case fromElement (Node (Element ''P'' []
           [Element ''B'' [] [Text 0 ''ab'', Element ''I'' [] [Text 1 ''cd''], Text 2 ''ef'']])) of
        Inl e \<Rightarrow> False
      | Inr m \<Rightarrow> map_of (blocks m) ''bold'' = None)"
  by code_simp

text \<open>
  Claim C4, as amended. \<^verbatim>\<open>sameAs\<close> maps \<^verbatim>\<open>B\<close> to \<^verbatim>\<open>STRONG\<close> and \<^verbatim>\<open>I\<close> to \<^verbatim>\<open>EM\<close> before
  the kind name is read, so the tree ingests to the text \<^verbatim>\<open>abcdef\<close> with
  \<^verbatim>\<open>blocks.strong = [0, 6]\<close> and \<^verbatim>\<open>blocks.emphasis = [2, 4]\<close>.
\<close>

theorem ingest_example:
  "getNodeName (Element ''B'' attrs children) = Some ''STRONG''
   \<and> tagType (Some ''STRONG'') = Inr (Continuous, ''strong'')
   \<and> getNodeName (Element ''I'' attrs children) = Some ''EM''
   \<and> tagType (Some ''EM'') = Inr (Continuous, ''emphasis'')
   \<and> fromElement (Node (Element ''P'' []
       [Element ''B'' [] [Text 0 ''ab'', Element ''I'' [] [Text 1 ''cd''], Text 2 ''ef'']])) =
     Inr \<lparr>text' = ''abcdef'', blocks = [(''strong'', Nums [0, 6]), (''emphasis'', Nums [2, 4])]\<rparr>"
proof -
  have "getNodeName (Element ''B'' attrs children) = Some ''STRONG''"
    by (simp add: getNodeName_def js_get_def sameAs_def)
  moreover have "getNodeName (Element ''I'' attrs children) = Some ''EM''"
    by (simp add: getNodeName_def js_get_def sameAs_def)
  moreover have "tagType (Some ''STRONG'') = Inr (Continuous, ''strong'')" by code_simp
  moreover have "tagType (Some ''EM'') = Inr (Continuous, ''emphasis'')" by code_simp
  moreover have "fromElement (Node (Element ''P'' []
       [Element ''B'' [] [Text 0 ''ab'', Element ''I'' [] [Text 1 ''cd''], Text 2 ''ef'']])) =
     Inr \<lparr>text' = ''abcdef'', blocks = [(''strong'', Nums [0, 6]), (''emphasis'', Nums [2, 4])]\<rparr>"
    by code_simp
  ultimately show ?thesis by blast
qed

text \<open>
  Claim C1, at the failing input \<^verbatim>\<open><span>a</span><a href="x">b<span>c</span></a>\<close>.
  Ingest gives one link range \<open>[1, 3)\<close>. Emit renders the kind \<^verbatim>\<open>span\<close> first (its key
  is first), which cuts the text node of the link in two, so the link is wrapped around
  each piece; the second ingest finds two link ranges. A second input:
  \<^verbatim>\<open><br><br>\<close> ingests to the empty text with two marks at 0, and emit throws on the
  second mark, when no text node is left in the tree.
\<close>

theorem round_trip_failing_input:
  "fromElement (DocumentFragment
      [Element ''SPAN'' [] [Text 0 ''a''],
       Element ''A'' [(''href'', ''x'')] [Text 1 ''b'', Element ''SPAN'' [] [Text 2 ''c'']]]) =
     Inr \<lparr>text' = ''abc'',
           blocks = [(''span'', Objs [\<lparr>start = 0, end' = 1, attributes = []\<rparr>,
                                      \<lparr>start = 2, end' = 3, attributes = []\<rparr>]),
                     (''link'', Objs [\<lparr>start = 1, end' = 3, attributes = [(''href'', ''x'')]\<rparr>])]\<rparr>
   \<and> toElement \<lparr>text' = ''abc'',
           blocks = [(''span'', Objs [\<lparr>start = 0, end' = 1, attributes = []\<rparr>,
                                      \<lparr>start = 2, end' = 3, attributes = []\<rparr>]),
                     (''link'', Objs [\<lparr>start = 1, end' = 3, attributes = [(''href'', ''x'')]\<rparr>])]\<rparr> =
     Some (Inr [Element ''SPAN'' [] [Text 1 ''a''],
                Element ''A'' [(''href'', ''x'')] [Text 5 ''b''],
                Element ''SPAN'' [] [Element ''A'' [(''href'', ''x'')] [Text 7 ''c'']]])
   \<and> fromElement (DocumentFragment
        [Element ''SPAN'' [] [Text 1 ''a''],
         Element ''A'' [(''href'', ''x'')] [Text 5 ''b''],
         Element ''SPAN'' [] [Element ''A'' [(''href'', ''x'')] [Text 7 ''c'']]]) =
     Inr \<lparr>text' = ''abc'',
           blocks = [(''span'', Objs [\<lparr>start = 0, end' = 1, attributes = []\<rparr>,
                                      \<lparr>start = 2, end' = 3, attributes = []\<rparr>]),
                     (''link'', Objs [\<lparr>start = 1, end' = 2, attributes = [(''href'', ''x'')]\<rparr>,
                                      \<lparr>start = 2, end' = 3, attributes = [(''href'', ''x'')]\<rparr>])]\<rparr>
   \<and> fromElement (DocumentFragment [Element ''BR'' [] [], Element ''BR'' [] []]) =
     Inr \<lparr>text' = [], blocks = [(''soft return'', Nums [0, 0])]\<rparr>
   \<and> toElement \<lparr>text' = [], blocks = [(''soft return'', Nums [0, 0])]\<rparr> = Some (Inl NullNodeValue)"
  by code_simp

text \<open>
  Claim C5, at the failing input: the link range \<open>[2, 5)\<close> lies entirely left of the
  offset 5, and split still clones it: \<open>after\<close> gets an entry of zero length.
\<close>

theorem split_propertied_failing_input:
  "split \<lparr>text' = ''abcdefgh'',
          blocks = [(''link'', Objs [\<lparr>start = 2, end' = 5, attributes = [(''href'', ''x'')]\<rparr>])]\<rparr> 5 =
     Inr (\<lparr>text' = ''abcde'',
            blocks = [(''link'', Objs [\<lparr>start = 2, end' = 5, attributes = [(''href'', ''x'')]\<rparr>])]\<rparr>,
          \<lparr>text' = ''fgh'',
            blocks = [(''link'', Objs [\<lparr>start = 0, end' = 0, attributes = [(''href'', ''x'')]\<rparr>])]\<rparr>)"
  by code_simp

text \<open>
  Claim C6, at two failing inputs. Both models are well-formed (ingest returns them for
  \<^verbatim>\<open><b>ab</b>cdef\<close> and \<^verbatim>\<open><b>abcdef</b>\<close>, and \<open>fromElement_wellFormed\<close> holds of every model
  ingest returns). In the first split the continuous kind has no span right of the
  offset and \<open>after\<close> stores it with the empty list; in the second the offset is the end
  of the span and \<open>after\<close> stores the span \<open>[0, 0]\<close> of zero length.
\<close>

theorem split_continuous_failing_input:
  "wellFormed \<lparr>text' = ''abcdef'', blocks = [(''strong'', Nums [0, 2])]\<rparr>
   \<and> split \<lparr>text' = ''abcdef'', blocks = [(''strong'', Nums [0, 2])]\<rparr> 3 =
     Inr (\<lparr>text' = ''abc'', blocks = [(''strong'', Nums [0, 2])]\<rparr>,
          \<lparr>text' = ''def'', blocks = [(''strong'', Nums [])]\<rparr>)
   \<and> \<not> wellFormed \<lparr>text' = ''def'', blocks = [(''strong'', Nums [])]\<rparr>
   \<and> wellFormed \<lparr>text' = ''abcdef'', blocks = [(''strong'', Nums [0, 6])]\<rparr>
   \<and> split \<lparr>text' = ''abcdef'', blocks = [(''strong'', Nums [0, 6])]\<rparr> 6 =
     Inr (\<lparr>text' = ''abcdef'', blocks = [(''strong'', Nums [0, 6])]\<rparr>,
          \<lparr>text' = [], blocks = [(''strong'', Nums [0, 0])]\<rparr>)
   \<and> \<not> wellFormed \<lparr>text' = [], blocks = [(''strong'', Nums [0, 0])]\<rparr>"
  by code_simp

end
